theory Spec2Isabelle
  imports Main "HOL-Library.Word"
begin

section \<open>Ejectd (ceject.c): the data model\<close>

text \<open>
  The program keeps one static character array (the buffer of \<open>exec_cmd\<close>), the saved
  position of the C library's \<open>strtok\<close>, and an array of \<open>DriveInfo\<close> records that lives in
  \<open>main\<close>. Everything else is text exchanged with external processes.

  Conventions of the embedding:
  \<^item> a pointer into the static buffer is its offset (a \<open>nat\<close>); a pointer that may be
    \<open>NULL\<close> is a \<open>nat option\<close>;
  \<^item> the buffer is the list of its cells from offset 0; cells past the end of the list
    hold the terminator they were initialised with (static storage is zeroed);
  \<^item> a C array indexed by a counter that the code keeps below the capacity
    (\<open>drives[count]\<close>, \<open>mountpoints[mount_count]\<close>) is a function from the index;
  \<^item> \<open>snprintf\<close> and \<open>strncpy\<close> into a destination of n bytes keep the first n - 1
    characters; \<open>strcpy\<close> keeps them all (a token longer than the destination overruns
    it in C, which has no defined behaviour to model);
  \<^item> the external world answers \<open>popen\<close> and \<open>system\<close> as a function of the command and
    of everything the process did before (the trace).
\<close>

abbreviation NUL :: char where "NUL \<equiv> CHR 0x00"
abbreviation NL :: char where "NL \<equiv> CHR 0x0A"
abbreviation DQ :: char where "DQ \<equiv> CHR 0x22"
abbreviation SQ :: char where "SQ \<equiv> CHR 0x27"

definition MAX_DRIVES :: nat where "MAX_DRIVES = 32"
definition MAX_PATH :: nat where "MAX_PATH = 256"
definition MAX_LINE :: nat where "MAX_LINE = 1024"

record DriveInfo =
  path :: string
  size_s :: string
  model :: string
  vendor :: string
  transport :: string
  mount_count :: nat
  mountpoints :: "nat \<Rightarrow> string"

datatype event =
    Popen string
  | System string int
  | Printf string
  | Getchar
  | Sleep nat

record env =
  popen_out :: "event list \<Rightarrow> string \<Rightarrow> string option"
  system_rc :: "event list \<Rightarrow> string \<Rightarrow> int"

record state =
  buffer :: string
  olds :: nat
  stdin :: string
  trace :: "event list"

subsection \<open>C strings in the buffer\<close>

definition cell :: "string \<Rightarrow> nat \<Rightarrow> char" where
  "cell b i = (if i < length b then b ! i else NUL)"

definition cstr :: "string \<Rightarrow> nat \<Rightarrow> string" where
  "cstr b p = takeWhile (\<lambda>c. c \<noteq> NUL) (drop p b)"

definition strchr :: "string \<Rightarrow> nat \<Rightarrow> char \<Rightarrow> nat option" where
  "strchr b p c =
     (let s = cstr b p
      in if c \<in> set s then Some (p + length (takeWhile (\<lambda>x. x \<noteq> c) s)) else None)"

definition strspn :: "string \<Rightarrow> string \<Rightarrow> nat" where
  "strspn s accept = length (takeWhile (\<lambda>c. c \<in> set accept) s)"

definition strcspn :: "string \<Rightarrow> string \<Rightarrow> nat" where
  "strcspn s reject = length (takeWhile (\<lambda>c. c \<notin> set reject) s)"

definition emit :: "event \<Rightarrow> state \<Rightarrow> state" where
  "emit e st = st\<lparr>trace := trace st @ [e]\<rparr>"

text \<open>
  \<open>strtok(s, delim)\<close> on the static buffer, after the C library: skip the delimiters,
  return \<open>NULL\<close> at the terminator, otherwise cut the token at its first delimiter and
  save the position behind it.
\<close>

definition strtok :: "nat option \<Rightarrow> string \<Rightarrow> state \<Rightarrow> nat option \<times> state" where
  "strtok s delim st =
     (let b = buffer st;
          p = (case s of None \<Rightarrow> olds st | Some q \<Rightarrow> q);
          p1 = p + strspn (cstr b p) delim
      in if cell b p1 = NUL then (None, st\<lparr>olds := p1\<rparr>)
         else let e = p1 + strcspn (cstr b p1) delim
              in if cell b e = NUL then (Some p1, st\<lparr>olds := e\<rparr>)
                 else (Some p1, st\<lparr>buffer := b[e := NUL], olds := Suc e\<rparr>))"

subsection \<open>exec_cmd\<close>

text \<open>
  \<open>fgets(line, size, fp)\<close> stores at most \<open>size - 1\<close> characters and stops behind a
  newline; at end of file it returns \<open>NULL\<close>.
\<close>

fun fgets_chars :: "nat \<Rightarrow> string \<Rightarrow> string \<times> string" where
  "fgets_chars 0 s = ([], s)"
| "fgets_chars (Suc n) [] = ([], [])"
| "fgets_chars (Suc n) (c # cs) =
     (if c = NL then ([c], cs)
      else (case fgets_chars n cs of (l, r) \<Rightarrow> (c # l, r)))"

definition fgets :: "nat \<Rightarrow> string \<Rightarrow> (string \<times> string) option" where
  "fgets sz fp = (if fp = [] then None else Some (fgets_chars (sz - 1) fp))"

definition strncat :: "string \<Rightarrow> string \<Rightarrow> nat \<Rightarrow> string" where
  "strncat dest src n = dest @ take n (takeWhile (\<lambda>c. c \<noteq> NUL) src)"

lemma fgets_chars_shorter:
  "0 < n \<Longrightarrow> s \<noteq> [] \<Longrightarrow> length (snd (fgets_chars n s)) < length s"
proof (induction n s rule: fgets_chars.induct)
  case (3 n c cs)
  show ?case
  proof (cases "c = NL")
    case True
    then show ?thesis by simp
  next
    case False
    show ?thesis
    proof (cases n)
      case 0
      then show ?thesis using False by simp
    next
      case (Suc m)
      show ?thesis
      proof (cases cs)
        case Nil
        then show ?thesis using False Suc by simp
      next
        case (Cons d ds)
        then have "length (snd (fgets_chars n cs)) < length cs"
          using "3.IH" False Suc by simp
        then show ?thesis using False by (cases "fgets_chars n cs") simp
      qed
    qed
  qed
qed simp_all

text \<open>
  The loop of \<open>exec_cmd\<close>: every line read is appended to the string in the buffer,
  as far as the buffer has room.
\<close>

function read_lines :: "string \<Rightarrow> string \<Rightarrow> string" where
  "read_lines buf fp =
     (case fgets MAX_LINE fp of
        None \<Rightarrow> buf
      | Some (line, fp') \<Rightarrow>
          read_lines (strncat buf line (MAX_LINE * 10 - length buf - 1)) fp')"
  by pat_completeness auto
termination
proof (relation "measure (\<lambda>(buf, fp). length fp)")
  show "wf (measure (\<lambda>(buf, fp). length fp))" by simp
next
  fix buf fp x2 line fp'
  assume a: "fgets MAX_LINE fp = Some x2" "(line, fp') = x2"
  then have "fp \<noteq> []" by (auto simp: fgets_def split: if_splits)
  moreover from a have "fp' = snd (fgets_chars (MAX_LINE - 1) fp)"
    by (auto simp: fgets_def split: if_splits)
  ultimately have "length fp' < length fp"
    using fgets_chars_shorter [of "MAX_LINE - 1" fp] by (simp add: MAX_LINE_def)
  then show "((strncat buf line (MAX_LINE * 10 - length buf - 1), fp'), (buf, fp))
               \<in> measure (\<lambda>(buf, fp). length fp)"
    by simp
qed

declare read_lines.simps [simp del]

definition fetch :: "string option \<Rightarrow> string" where
  "fetch out = (case out of None \<Rightarrow> [] | Some fp \<Rightarrow> read_lines [] fp)"

definition poke_str :: "string \<Rightarrow> string \<Rightarrow> string" where
  "poke_str s b = s @ NUL # drop (Suc (length s)) b"

text \<open>
  \<open>exec_cmd\<close> returns the address of its static buffer, offset 0, whatever the command;
  the string it builds there replaces the one of the call before.
\<close>

definition exec_cmd :: "env \<Rightarrow> string \<Rightarrow> state \<Rightarrow> nat \<times> state" where
  "exec_cmd E cmd st =
     (0, st\<lparr>buffer := poke_str (fetch (popen_out E (trace st) cmd)) (buffer st),
            trace := trace st @ [Popen cmd]\<rparr>)"

subsection \<open>The catalog builder\<close>

definition root_cmd :: string where
  "root_cmd = ''lsblk -no PKNAME '' @ [DQ] @ ''$(findmnt -n -o SOURCE /)'' @ [DQ] @ '' 2>/dev/null''"

definition strip_newline :: "nat \<Rightarrow> state \<Rightarrow> state" where
  "strip_newline p st =
     (case strchr (buffer st) p NL of
        None \<Rightarrow> st
      | Some i \<Rightarrow> st\<lparr>buffer := (buffer st)[i := NUL]\<rparr>)"

definition get_root_drive :: "env \<Rightarrow> nat \<Rightarrow> state \<Rightarrow> string \<times> state" where
  "get_root_drive E sz st =
     (let cmd = take (MAX_LINE - 1) root_cmd;
          (result, st1) = exec_cmd E cmd st;
          st2 = strip_newline result st1
      in (take (sz - 1) (cstr (buffer st2) result), st2))"

definition isspace :: "char \<Rightarrow> bool" where
  "isspace c = (c \<in> set [CHR '' '', CHR 0x09, CHR 0x0A, CHR 0x0B, CHR 0x0C, CHR 0x0D])"

text \<open>One \<open>%Ns\<close> directive of \<open>sscanf\<close>: \<open>None\<close> when the input ends before a token.\<close>

definition scan_s :: "nat \<Rightarrow> string \<Rightarrow> (string \<times> string) option" where
  "scan_s w s =
     (let r = dropWhile isspace s
      in if r = [] then None
         else let t = take w (takeWhile (\<lambda>c. \<not> isspace c) r)
              in Some (t, drop (length t) r))"

text \<open>
  \<open>sscanf(result, "%63s %127s %127s %31s", size, model, vendor, transport)\<close>: the
  directives are served in order, and the first one that finds no token ends the call;
  the fields of the directives not served are not written.
\<close>

definition sscanf_info :: "string \<Rightarrow> DriveInfo \<Rightarrow> DriveInfo" where
  "sscanf_info s info =
     (case scan_s 63 s of
        None \<Rightarrow> info
      | Some (a, r1) \<Rightarrow>
          (case scan_s 127 r1 of
             None \<Rightarrow> info\<lparr>size_s := a\<rparr>
           | Some (b, r2) \<Rightarrow>
               (case scan_s 127 r2 of
                  None \<Rightarrow> info\<lparr>size_s := a, model := b\<rparr>
                | Some (c, r3) \<Rightarrow>
                    (case scan_s 31 r3 of
                       None \<Rightarrow> info\<lparr>size_s := a, model := b, vendor := c\<rparr>
                     | Some (d, r4) \<Rightarrow>
                         info\<lparr>size_s := a, model := b, vendor := c, transport := d\<rparr>))))"

definition info_cmd :: "string \<Rightarrow> string" where
  "info_cmd drive =
     take (MAX_LINE - 1)
       (''lsblk -no SIZE,MODEL,VENDOR,TRAN '' @ [DQ] @ drive @ [DQ] @ '' 2>/dev/null | head -1'')"

definition mountpoint_cmd :: "string \<Rightarrow> string" where
  "mountpoint_cmd drive =
     take (MAX_LINE - 1)
       (''lsblk -no MOUNTPOINT '' @ [DQ] @ drive @ [DQ] @ '' 2>/dev/null'')"

lemma takeWhile_drop_le:
  "n \<le> length (takeWhile P xs) \<Longrightarrow> takeWhile P (drop n xs) = drop n (takeWhile P xs)"
  by (induction xs arbitrary: n) (auto simp: drop_Cons split: nat.splits)

lemma strtok_olds:
  "strtok s d st = (Some t, st') \<Longrightarrow>
     (case s of None \<Rightarrow> olds st | Some q \<Rightarrow> q) < olds st' \<and>
     olds st' \<le> length (buffer st') \<and> length (buffer st') = length (buffer st)"
proof -
  assume a: "strtok s d st = (Some t, st')"
  define b where "b = buffer st"
  define p where "p = (case s of None \<Rightarrow> olds st | Some q \<Rightarrow> q)"
  define p1 where "p1 = p + strspn (cstr b p) d"
  define e where "e = p1 + strcspn (cstr b p1) d"
  have nz: "cell b p1 \<noteq> NUL"
    using a by (auto simp: strtok_def Let_def b_def p_def p1_def split: if_splits)
  then have lt: "p1 < length b" by (auto simp: cell_def split: if_splits)
  have dr: "drop p1 b = b ! p1 # drop (Suc p1) b"
    using lt by (simp add: Cons_nth_drop_Suc)
  have bp1: "b ! p1 \<noteq> NUL" using nz lt by (simp add: cell_def)
  have spn: "drop p1 b = drop (strspn (cstr b p) d) (drop p b)"
    by (simp add: p1_def add.commute)
  have "cstr b p1 = dropWhile (\<lambda>c. c \<in> set d) (cstr b p)"
  proof -
    have "strspn (cstr b p) d \<le> length (cstr b p)"
      by (simp add: strspn_def length_takeWhile_le)
    then have "cstr b p1 = drop (strspn (cstr b p) d) (cstr b p)"
      unfolding cstr_def spn by (rule takeWhile_drop_le)
    also have "\<dots> = dropWhile (\<lambda>c. c \<in> set d) (cstr b p)"
      by (simp add: strspn_def dropWhile_eq_drop)
    finally show ?thesis .
  qed
  moreover have "cstr b p1 \<noteq> []" using dr bp1 by (simp add: cstr_def)
  ultimately have "hd (cstr b p1) \<notin> set d"
    using hd_dropWhile [of "\<lambda>c. c \<in> set d" "cstr b p"] by simp
  then have pos: "0 < strcspn (cstr b p1) d"
    using \<open>cstr b p1 \<noteq> []\<close> by (cases "cstr b p1") (auto simp: strcspn_def)
  have le: "strcspn (cstr b p1) d \<le> length (cstr b p1)"
    by (simp add: strcspn_def length_takeWhile_le)
  have "length (cstr b p1) \<le> length b - p1"
    using length_takeWhile_le [of "\<lambda>c. c \<noteq> NUL" "drop p1 b"] by (simp add: cstr_def)
  then have ele: "e \<le> length b" using le lt by (simp add: e_def)
  have pe: "p < e" using pos by (simp add: e_def p1_def)
  have eq: "strtok s d st =
      (if cell b e = NUL then (Some p1, st\<lparr>olds := e\<rparr>)
       else (Some p1, st\<lparr>buffer := b[e := NUL], olds := Suc e\<rparr>))"
    using nz by (simp add: strtok_def Let_def b_def p_def p1_def e_def)
  show ?thesis
  proof (cases "cell b e = NUL")
    case True
    then have "st' = st\<lparr>olds := e\<rparr>" using a eq by simp
    then show ?thesis using pe ele by (simp add: b_def p_def)
  next
    case False
    then have "st' = st\<lparr>buffer := b[e := NUL], olds := Suc e\<rparr>" using a eq by simp
    moreover have "e < length b" using False by (auto simp: cell_def split: if_splits)
    ultimately show ?thesis using pe by (simp add: b_def p_def)
  qed
qed

text \<open>The loop of \<open>get_drive_info\<close> over the lines of the mount-point query.\<close>

function mount_loop :: "nat option \<Rightarrow> DriveInfo \<Rightarrow> state \<Rightarrow> DriveInfo \<times> state" where
  "mount_loop None info st = (info, st)"
| "mount_loop (Some l) info st =
     (if mount_count info < 8 then
        (let info' =
               (if cell (buffer st) l = CHR ''/''
                then info\<lparr>mountpoints :=
                            (mountpoints info)
                              (mount_count info := take (MAX_PATH - 1) (cstr (buffer st) l)),
                          mount_count := mount_count info + 1\<rparr>
                else info)
         in case strtok None [NL] st of (line', st') \<Rightarrow> mount_loop line' info' st')
      else (info, st))"
  by pat_completeness auto
termination
proof (relation "measure (\<lambda>(line, info, st).
          case line of None \<Rightarrow> 0 | Some l \<Rightarrow> Suc (Suc (length (buffer st)) - olds st))")
  show "wf (measure (\<lambda>(line, info, st).
          case line of None \<Rightarrow> 0 | Some l \<Rightarrow> Suc (Suc (length (buffer st)) - olds st)))"
    by simp
next
  fix l :: nat and info :: DriveInfo and st :: state and xa x y xb
  assume a: "(x, y) = strtok None [NL] st"
  show "((x, xb, y), (Some l, info, st)) \<in> measure (\<lambda>(line, info, st).
          case line of None \<Rightarrow> 0 | Some l \<Rightarrow> Suc (Suc (length (buffer st)) - olds st))"
  proof (cases x)
    case None
    then show ?thesis by simp
  next
    case (Some t)
    then have "olds st < olds y \<and> olds y \<le> length (buffer y) \<and>
               length (buffer y) = length (buffer st)"
      using strtok_olds [of None "[NL]" st t y] a by simp
    then show ?thesis using Some by simp arith
  qed
qed

definition get_drive_info :: "env \<Rightarrow> nat \<Rightarrow> DriveInfo \<Rightarrow> state \<Rightarrow> DriveInfo \<times> state" where
  "get_drive_info E drive info st =
     (let info1 = info\<lparr>path := cstr (buffer st) drive, mount_count := 0\<rparr>;
          (result, st1) = exec_cmd E (info_cmd (cstr (buffer st) drive)) st;
          info2 = sscanf_info (cstr (buffer st1) result) info1;
          (result2, st2) = exec_cmd E (mountpoint_cmd (cstr (buffer st1) drive)) st1;
          (line, st3) = strtok (Some result2) [NL] st2
      in mount_loop line info2 st3)"

definition list_cmd :: "string \<Rightarrow> string" where
  "list_cmd root_drive =
     take (MAX_LINE - 1)
       (''lsblk -ndo NAME,TYPE | awk -v rd='' @ [DQ] @ root_drive @ [DQ] @ '' '' @ [SQ] @
        ''$2=='' @ [DQ] @ ''disk'' @ [DQ] @ '' && $1!=rd {print '' @ [DQ] @ ''/dev/'' @ [DQ] @
        ''$1}'' @ [SQ])"

text \<open>The loop of \<open>get_drives\<close> over the lines of the device listing.\<close>

function drives_loop ::
  "env \<Rightarrow> nat option \<Rightarrow> nat \<Rightarrow> (nat \<Rightarrow> DriveInfo) \<Rightarrow> nat \<Rightarrow> state
     \<Rightarrow> nat \<times> (nat \<Rightarrow> DriveInfo) \<times> state" where
  "drives_loop E None count drives max_drives st = (count, drives, st)"
| "drives_loop E (Some l) count drives max_drives st =
     (if count < max_drives then
        (case get_drive_info E l (drives count) st of
           (info, st1) \<Rightarrow>
             (case strtok None [NL] st1 of
                (line', st2) \<Rightarrow>
                  drives_loop E line' (count + 1) (drives(count := info)) max_drives st2))
      else (count, drives, st))"
  by pat_completeness auto
termination
  by (relation "measure (\<lambda>(E, line, count, drives, max_drives, st).
          case line of None \<Rightarrow> 0 | Some l \<Rightarrow> Suc (max_drives - count))")
     (auto split: option.splits)

definition get_drives ::
  "env \<Rightarrow> (nat \<Rightarrow> DriveInfo) \<Rightarrow> nat \<Rightarrow> state \<Rightarrow> nat \<times> (nat \<Rightarrow> DriveInfo) \<times> state" where
  "get_drives E drives max_drives st =
     (let (root_drive, st1) = get_root_drive E 64 st;
          (result, st2) = exec_cmd E (list_cmd root_drive) st1;
          (line, st3) = strtok (Some result) [NL] st2
      in drives_loop E line 0 drives max_drives st3)"

subsection \<open>The presentation layer\<close>

text \<open>
  Output is one \<open>Printf\<close> event per call of \<open>printf\<close>, with the text the call prints;
  the colour escapes and the icons, constants of the format strings, are left out.
\<close>

definition printf :: "string \<Rightarrow> state \<Rightarrow> state" where
  "printf s st = emit (Printf s) st"

definition getchar :: "state \<Rightarrow> state" where
  "getchar st = emit Getchar (st\<lparr>stdin := tl (stdin st)\<rparr>)"

definition sleep :: "nat \<Rightarrow> state \<Rightarrow> state" where
  "sleep n st = emit (Sleep n) st"

definition system :: "env \<Rightarrow> string \<Rightarrow> state \<Rightarrow> int \<times> state" where
  "system E cmd st =
     (let ret = system_rc E (trace st) cmd in (ret, emit (System cmd ret) st))"

definition show_header :: "env \<Rightarrow> state \<Rightarrow> state" where
  "show_header E st =
     (let (ret, st1) = system E ''clear'' st;
          st2 = printf ([NL] @ ''Ejectd  External Drive Ejector'' @ [NL]) st1
      in printf (''Safe removal tool for external drives'' @ [NL, NL]) st2)"

fun dec :: "nat \<Rightarrow> string" where
  "dec n = (if n < 10 then [char_of (48 + n)] else dec (n div 10) @ [char_of (48 + n mod 10)])"

declare dec.simps [simp del]

text \<open>The friendly name that \<open>show_drives\<close> builds in \<open>friendly_name[256]\<close>.\<close>

definition friendly_name :: "DriveInfo \<Rightarrow> string" where
  "friendly_name drive =
     (if length (vendor drive) > 0 \<or> length (model drive) > 0 then
        take 255
          ((if length (vendor drive) > 0 then vendor drive else []) @
           (if length (vendor drive) > 0 then '' '' else []) @
           (if length (model drive) > 0 then model drive else ''Unknown Drive''))
      else ''Unknown Drive'')"

definition conn_type :: "DriveInfo \<Rightarrow> string" where
  "conn_type drive =
     (if transport drive = ''sata'' then ''SATA''
      else if transport drive = ''nvme'' then ''NVMe''
      else ''USB'')"

definition mount_info :: "DriveInfo \<Rightarrow> string" where
  "mount_info drive = (if mount_count drive > 0 then '' Mounted'' else '' Not mounted'')"

definition mount_extra :: "DriveInfo \<Rightarrow> string" where
  "mount_extra drive =
     (if mount_count drive > 0 \<and> mount_count drive > 3
      then take 63 ('' ('' @ dec (mount_count drive) @ '' locations)'')
      else [])"

definition show_drive :: "nat \<Rightarrow> DriveInfo \<Rightarrow> state \<Rightarrow> state" where
  "show_drive i drive st =
     (let st1 = printf (''['' @ dec (i + 1) @ '']  '' @ friendly_name drive @ [NL]) st;
          st2 = printf (''     Device: '' @ path drive @ [NL]) st1;
          st3 = printf (''     Size: '' @ size_s drive @ [NL]) st2;
          st4 = printf (''     Type: '' @ conn_type drive @ [NL]) st3;
          st5 = printf (''     Status: '' @ mount_info drive @ mount_extra drive @ [NL]) st4;
          st6 = (if mount_count drive > 0 \<and> mount_count drive \<le> 3
                 then fold (\<lambda>j. printf (''        '' @ mountpoints drive j @ [NL]))
                        [0..<mount_count drive] st5
                 else st5)
      in printf [NL] st6)"

text \<open>
  \<open>show_drives\<close> ends the process with \<open>exit(1)\<close> when the catalog is empty: the result
  \<open>Some 1\<close>. Otherwise it returns to its caller: \<open>None\<close>.
\<close>

definition show_drives ::
  "env \<Rightarrow> (nat \<Rightarrow> DriveInfo) \<Rightarrow> nat \<Rightarrow> state \<Rightarrow> int option \<times> state" where
  "show_drives E drives count st =
     (let st1 = show_header E st
      in if count = 0 then
           (let st2 = printf ('' No external drives found.'' @ [NL, NL]) st1;
                st3 = printf ''Press Enter to exit...'' st2;
                st4 = getchar st3
            in (Some 1, st4))
         else
           (let st2 = printf (''Available Drives:'' @ [NL]) st1;
                st3 = printf (''------------------------------------------------------------''
                              @ [NL, NL]) st2;
                st4 = fold (\<lambda>i. show_drive i (drives i)) [0..<count] st3
            in (None,
                printf (''------------------------------------------------------------''
                        @ [NL]) st4)))"

subsection \<open>The eject orchestrator\<close>

definition partitions_cmd :: "string \<Rightarrow> string" where
  "partitions_cmd drive_path =
     take (MAX_LINE - 1)
       (''lsblk -lno NAME '' @ [DQ] @ drive_path @ [DQ] @ '' | tail -n +2'')"

definition unmount_cmd :: "string \<Rightarrow> string" where
  "unmount_cmd part_path =
     take (MAX_LINE - 1)
       (''udisksctl unmount -b '' @ [DQ] @ part_path @ [DQ] @ '' &>/dev/null'')"

definition poweroff_cmd :: "string \<Rightarrow> string" where
  "poweroff_cmd drive_path =
     take (MAX_LINE - 1)
       (''udisksctl power-off -b '' @ [DQ] @ drive_path @ [DQ] @ '' &>/dev/null'')"

text \<open>
  The body of the partition loop of \<open>unmount_drive\<close>, up to the \<open>strtok\<close> that ends it:
  the mount-point query goes through \<open>exec_cmd\<close>, hence through the buffer that
  \<open>partition\<close> (here \<open>part\<close>) points into.
\<close>

definition unmount_body :: "env \<Rightarrow> nat \<Rightarrow> bool \<Rightarrow> state \<Rightarrow> bool \<times> state" where
  "unmount_body E part unmount_failed st =
     (let part_path = take (MAX_PATH - 1) (''/dev/'' @ cstr (buffer st) part);
          (mountpoint, st1) = exec_cmd E (mountpoint_cmd part_path) st;
          st2 = strip_newline mountpoint st1
      in if length (cstr (buffer st2) mountpoint) > 0 then
           (let st3 = printf (''   Unmounting '' @ part_path @ '' ('' @
                              cstr (buffer st2) mountpoint @ '')...'' @ [NL]) st2;
                (ret, st4) = system E (unmount_cmd part_path) st3
            in if ret = 0 then (unmount_failed, printf (''     Success'' @ [NL]) st4)
               else (True, printf (''     Failed'' @ [NL]) st4))
         else (unmount_failed, st2))"

lemma strncat_length:
  "length (strncat buf line (MAX_LINE * 10 - length buf - 1))
     \<le> max (length buf) (MAX_LINE * 10 - 1)"
  by (auto simp: strncat_def)

lemma read_lines_length:
  "length (read_lines buf fp) \<le> max (length buf) (MAX_LINE * 10 - 1)"
proof (induction buf fp rule: read_lines.induct)
  case (1 buf fp)
  show ?case
  proof (cases "fgets MAX_LINE fp")
    case None
    then show ?thesis by (simp add: read_lines.simps)
  next
    case (Some x)
    obtain line fp' where x: "x = (line, fp')" by (cases x)
    have "length (read_lines (strncat buf line (MAX_LINE * 10 - length buf - 1)) fp')
            \<le> max (length (strncat buf line (MAX_LINE * 10 - length buf - 1)))
                  (MAX_LINE * 10 - 1)"
      using "1.IH" Some x by simp
    also have "\<dots> \<le> max (length buf) (MAX_LINE * 10 - 1)"
      using strncat_length [of buf line] by simp
    finally show ?thesis using Some x by (simp add: read_lines.simps)
  qed
qed

lemma fetch_length: "length (fetch out) < MAX_LINE * 10"
proof (cases out)
  case None
  then show ?thesis by (simp add: fetch_def MAX_LINE_def)
next
  case (Some fp)
  have "length (read_lines [] fp) \<le> MAX_LINE * 10 - 1"
    using read_lines_length [of "[]" fp] by simp
  then show ?thesis using Some by (simp add: fetch_def MAX_LINE_def)
qed

lemma poke_str_length: "length (poke_str s b) = max (Suc (length s)) (length b)"
  by (auto simp: poke_str_def)

lemma exec_cmd_frame:
  "olds (snd (exec_cmd E cmd st)) = olds st"
  "stdin (snd (exec_cmd E cmd st)) = stdin st"
  "max (MAX_LINE * 10) (length (buffer (snd (exec_cmd E cmd st))))
     = max (MAX_LINE * 10) (length (buffer st))"
  using fetch_length [of "popen_out E (trace st) cmd"]
  by (auto simp: exec_cmd_def poke_str_length)

lemma strip_newline_frame:
  "olds (strip_newline p st) = olds st"
  "stdin (strip_newline p st) = stdin st"
  "trace (strip_newline p st) = trace st"
  "length (buffer (strip_newline p st)) = length (buffer st)"
  by (auto simp: strip_newline_def split: option.splits)

lemma printf_frame:
  "olds (printf s st) = olds st"
  "stdin (printf s st) = stdin st"
  "buffer (printf s st) = buffer st"
  "trace (printf s st) = trace st @ [Printf s]"
  by (simp_all add: printf_def emit_def)

lemma system_frame:
  "olds (snd (system E cmd st)) = olds st"
  "stdin (snd (system E cmd st)) = stdin st"
  "buffer (snd (system E cmd st)) = buffer st"
  by (simp_all add: system_def emit_def Let_def)

lemma unmount_body_frame:
  "olds (snd (unmount_body E p f st)) = olds st"
  "stdin (snd (unmount_body E p f st)) = stdin st"
  "max (MAX_LINE * 10) (length (buffer (snd (unmount_body E p f st))))
     = max (MAX_LINE * 10) (length (buffer st))"
  using fetch_length [of "popen_out E (trace st)
          (mountpoint_cmd (take (MAX_PATH - 1) (''/dev/'' @ cstr (buffer st) p)))"]
  by (auto simp: unmount_body_def exec_cmd_def system_def Let_def printf_def emit_def
        strip_newline_frame poke_str_length)

lemma unmount_loop_decreases:
  assumes "unmount_body E p f st = (f', st1)" and "strtok None [NL] st1 = (part', st2)"
  shows "(case part' of None \<Rightarrow> 0
          | Some q \<Rightarrow> Suc (Suc (max (MAX_LINE * 10) (length (buffer st2))) - olds st2))
         < Suc (Suc (max (MAX_LINE * 10) (length (buffer st))) - olds st)"
proof (cases part')
  case None
  then show ?thesis by simp
next
  case (Some t)
  have st1: "st1 = snd (unmount_body E p f st)" using assms(1) by simp
  have "olds st1 < olds st2 \<and> olds st2 \<le> length (buffer st2) \<and>
        length (buffer st2) = length (buffer st1)"
    using strtok_olds [of None "[NL]" st1 t st2] assms(2) Some by simp
  moreover have "olds st1 = olds st"
    "max (MAX_LINE * 10) (length (buffer st1)) = max (MAX_LINE * 10) (length (buffer st))"
    using unmount_body_frame [of E p f st] st1 by simp_all
  ultimately show ?thesis using Some by simp arith
qed

text \<open>The partition loop of \<open>unmount_drive\<close>.\<close>

function unmount_loop :: "env \<Rightarrow> nat option \<Rightarrow> bool \<Rightarrow> state \<Rightarrow> bool \<times> state" where
  "unmount_loop E None unmount_failed st = (unmount_failed, st)"
| "unmount_loop E (Some p) unmount_failed st =
     (case unmount_body E p unmount_failed st of
        (unmount_failed', st1) \<Rightarrow>
          (case strtok None [NL] st1 of
             (part', st2) \<Rightarrow> unmount_loop E part' unmount_failed' st2))"
  by pat_completeness auto
termination
proof (relation "measure (\<lambda>(E, part, f, st).
          case part of None \<Rightarrow> 0
          | Some p \<Rightarrow> Suc (Suc (max (MAX_LINE * 10) (length (buffer st))) - olds st))",
       goal_cases)
  case 1
  show ?case by simp
next
  case (2 E p unmount_failed st f' st1 part' st2)
  then have "unmount_body E p unmount_failed st = (f', st1)"
    "strtok None [NL] st1 = (part', st2)" by simp_all
  from unmount_loop_decreases [OF this] show ?case by simp
qed

definition unmount_drive :: "env \<Rightarrow> string \<Rightarrow> state \<Rightarrow> bool \<times> state" where
  "unmount_drive E drive_path st =
     (let st0 = show_header E st;
          sta = printf ('' Selected: '' @ drive_path @ [NL, NL]) st0;
          stb = printf ('' Unmounting all partitions...'' @ [NL, NL]) sta;
          (result, st1) = exec_cmd E (partitions_cmd drive_path) stb;
          (part, st2) = strtok (Some result) [NL] st1;
          (unmount_failed, st3) = unmount_loop E part False st2
      in if unmount_failed then
           (let st4 = printf ([NL] @ '' Some partitions failed to unmount.'' @ [NL]) st3;
                st5 = printf ('' The drive may still be in use.'' @ [NL, NL]) st4;
                st6 = printf ''Press Enter to continue...'' st5
            in (False, getchar st6))
         else
           (let st4 = printf ([NL] @ '' Powering off the drive...'' @ [NL, NL]) st3;
                (ret, st5) = system E (poweroff_cmd drive_path) st4;
                st6 = (if ret = 0 then
                         printf ('' You can now safely remove the drive.'' @ [NL, NL])
                           (printf ('' Drive '' @ drive_path @ '' has been safely ejected!'' @
                                    [NL]) st5)
                       else printf ('' Failed to power off the drive.'' @ [NL, NL]) st5);
                st7 = printf ''Press Enter to continue...'' st6
            in (True, getchar st7)))"

subsection \<open>The interactive loop\<close>

definition tolower :: "char \<Rightarrow> char" where
  "tolower c =
     (if 65 \<le> (of_char c :: nat) \<and> (of_char c :: nat) \<le> 90
      then char_of ((of_char c :: nat) + 32) else c)"

definition isdigit :: "char \<Rightarrow> bool" where
  "isdigit c = (48 \<le> (of_char c :: nat) \<and> (of_char c :: nat) \<le> 57)"

text \<open>
  \<open>atoi\<close> as the C library computes it, \<open>(int) strtol(nptr, NULL, 10)\<close> with a 64-bit
  \<open>long\<close>: leading white space, an optional sign, the digits that follow (none: 0), the
  value kept in the range of \<open>long\<close> and then cut to 32 bits.
\<close>

definition atoi :: "string \<Rightarrow> int" where
  "atoi s =
     (let r = dropWhile isspace s;
          neg = (r \<noteq> [] \<and> hd r = CHR ''-'');
          r1 = (if r \<noteq> [] \<and> (hd r = CHR ''-'' \<or> hd r = CHR ''+'') then tl r else r);
          v = foldl (\<lambda>a c. 10 * a + (int (of_char c) - 48)) 0 (takeWhile isdigit r1);
          l = (if neg then max (- (2 ^ 63)) (- v) else min (2 ^ 63 - 1) v)
      in sint (word_of_int l :: 32 word))"

text \<open>
  What \<open>main\<close> does to the line it has read into \<open>input[16]\<close>: cut it at the first
  newline, then turn every character into lower case.
\<close>

definition normalize_input :: "string \<Rightarrow> string" where
  "normalize_input chars =
     map tolower (takeWhile (\<lambda>c. c \<noteq> NL) (takeWhile (\<lambda>c. c \<noteq> NUL) chars))"

definition show_options :: "nat \<Rightarrow> state \<Rightarrow> state" where
  "show_options drive_count st =
     (let st1 = printf ([NL] @ ''Options:'' @ [NL]) st;
          st2 = printf (''  [1-'' @ dec drive_count @ ''] Select a drive to eject'' @ [NL]) st1;
          st3 = printf (''  [r] Refresh drive list'' @ [NL]) st2;
          st4 = printf (''  [q] Quit'' @ [NL, NL]) st3
      in printf ''Your choice: '' st4)"

text \<open>
  One round of the \<open>while (true)\<close> of \<open>main\<close>. \<open>Inl (code, st)\<close>: the process has ended
  with this exit status (\<open>exit\<close> in \<open>show_drives\<close>, or \<open>break\<close> and \<open>return 0\<close>).
  \<open>Inr (drives, st)\<close>: the loop starts its next round, with the array as it is now.
\<close>

definition main_step ::
  "env \<Rightarrow> (nat \<Rightarrow> DriveInfo) \<Rightarrow> state \<Rightarrow> (int \<times> state) + ((nat \<Rightarrow> DriveInfo) \<times> state)" where
  "main_step E drives st =
     (case get_drives E drives MAX_DRIVES st of
        (drive_count, drives1, st1) \<Rightarrow>
          (case show_drives E drives1 drive_count st1 of
             (Some code, st2) \<Rightarrow> Inl (code, st2)
           | (None, st2) \<Rightarrow>
               (let st3 = show_options drive_count st2
                in case fgets 16 (stdin st3) of
                     None \<Rightarrow> Inl (0, st3)
                   | Some (chars, rest) \<Rightarrow>
                       (let st4 = st3\<lparr>stdin := rest\<rparr>;
                            input = normalize_input chars
                        in if input = ''q'' then
                             Inl (0, printf ([NL] @ ''Goodbye!'' @ [NL]) st4)
                           else if input = ''r'' then Inr (drives1, st4)
                           else
                             (let choice = atoi input
                              in if choice \<ge> 1 \<and> choice \<le> int drive_count then
                                   (case unmount_drive E (path (drives1 (nat (choice - 1)))) st4
                                    of (ok, st5) \<Rightarrow> Inr (drives1, st5))
                                 else
                                   Inr (drives1,
                                        sleep 2
                                          (printf ([NL] @ '' Invalid selection.'' @ [NL])
                                             st4)))))))"

subsection \<open>Termination of the interactive loop\<close>

text \<open>
  Every round that does not end the process has read at least one character of the
  standard input, so on an input that ends the loop ends.
\<close>

lemma strtok_frame:
  "stdin (snd (strtok s d st)) = stdin st"
  "trace (snd (strtok s d st)) = trace st"
  "length (buffer (snd (strtok s d st))) = length (buffer st)"
  by (simp_all add: strtok_def Let_def)

lemma mount_loop_frame:
  "stdin (snd (mount_loop line info st)) = stdin st"
proof (induction line info st rule: mount_loop.induct)
  case (1 info st)
  show ?case by simp
next
  case (2 l info st)
  show ?case
  proof (cases "mount_count info < 8")
    case False
    then show ?thesis by simp
  next
    case True
    obtain line' st' where s: "strtok None [NL] st = (line', st')" by fastforce
    have "stdin st' = stdin st" using strtok_frame(1) [of None "[NL]" st] s by simp
    then show ?thesis using True s "2.IH" [OF True refl s [symmetric]]
      by (simp add: Let_def)
  qed
qed

lemma get_drive_info_frame:
  "stdin (snd (get_drive_info E d info st)) = stdin st"
  by (simp add: get_drive_info_def Let_def case_prod_beta exec_cmd_frame mount_loop_frame
        strtok_frame)

lemma drives_loop_frame:
  "stdin (snd (snd (drives_loop E line count drives max_drives st))) = stdin st"
proof (induction E line count drives max_drives st rule: drives_loop.induct)
  case (1 E count drives max_drives st)
  show ?case by simp
next
  case (2 E l count drives max_drives st)
  show ?case
  proof (cases "count < max_drives")
    case False
    then show ?thesis by simp
  next
    case True
    obtain info st1 where g: "get_drive_info E l (drives count) st = (info, st1)" by fastforce
    obtain line' st2 where s: "strtok None [NL] st1 = (line', st2)" by fastforce
    have "stdin st1 = stdin st" using get_drive_info_frame [of E l "drives count" st] g by simp
    moreover have "stdin st2 = stdin st1" using strtok_frame(1) [of None "[NL]" st1] s by simp
    moreover have "stdin (snd (snd (drives_loop E line' (count + 1) (drives(count := info))
                               max_drives st2))) = stdin st2"
      using "2.IH" [OF True g [symmetric] s [symmetric]] .
    ultimately show ?thesis using True g s by simp
  qed
qed

lemma get_root_drive_frame:
  "stdin (snd (get_root_drive E sz st)) = stdin st"
  by (simp add: get_root_drive_def Let_def case_prod_beta exec_cmd_frame strip_newline_frame)

lemma get_drives_frame:
  "stdin (snd (snd (get_drives E drives max_drives st))) = stdin st"
  by (simp add: get_drives_def Let_def case_prod_beta exec_cmd_frame drives_loop_frame
        strtok_frame get_root_drive_frame)

lemma emit_frame:
  "stdin (emit e st) = stdin st" "buffer (emit e st) = buffer st" "olds (emit e st) = olds st"
  by (simp_all add: emit_def)

lemma show_header_frame: "stdin (show_header E st) = stdin st"
  by (simp add: show_header_def Let_def case_prod_beta printf_frame system_frame)

lemma fold_printf_stdin: "stdin (fold (\<lambda>j. printf (f j)) js st) = stdin st"
  by (induction js arbitrary: st) (simp_all add: printf_frame)

lemma show_drive_frame: "stdin (show_drive i d st) = stdin st"
  by (simp add: show_drive_def Let_def printf_frame fold_printf_stdin)

lemma fold_show_drive_stdin: "stdin (fold (\<lambda>i. show_drive i (drives i)) js st) = stdin st"
  by (induction js arbitrary: st) (simp_all add: show_drive_frame)

lemma show_drives_frame:
  "fst (show_drives E drives count st) = None \<Longrightarrow>
     stdin (snd (show_drives E drives count st)) = stdin st"
  by (simp add: show_drives_def Let_def printf_frame show_header_frame fold_show_drive_stdin
           split: if_splits)

lemma getchar_frame: "length (stdin (getchar st)) \<le> length (stdin st)"
  by (simp add: getchar_def emit_def)

lemma unmount_loop_frame: "stdin (snd (unmount_loop E part f st)) = stdin st"
proof (induction E part f st rule: unmount_loop.induct)
  case (1 E f st)
  show ?case by simp
next
  case (2 E p f st)
  obtain f' st1 where b: "unmount_body E p f st = (f', st1)" by fastforce
  obtain part' st2 where s: "strtok None [NL] st1 = (part', st2)" by fastforce
  have "stdin st1 = stdin st" using unmount_body_frame(2) [of E p f st] b by simp
  moreover have "stdin st2 = stdin st1" using strtok_frame(1) [of None "[NL]" st1] s by simp
  ultimately show ?case using b s "2.IH" [OF b [symmetric] s [symmetric]] by simp
qed

lemma unmount_drive_frame:
  "length (stdin (snd (unmount_drive E p st))) \<le> length (stdin st)"
  by (simp add: unmount_drive_def Let_def case_prod_beta printf_frame system_frame
        exec_cmd_frame strtok_frame unmount_loop_frame show_header_frame getchar_def emit_def)


lemma main_step_stdin:
  assumes "main_step E drives st = Inr (d, s)"
  shows "length (stdin s) < length (stdin st)"
proof -
  obtain n d1 st1 where g: "get_drives E drives MAX_DRIVES st = (n, d1, st1)"
    by (cases "get_drives E drives MAX_DRIVES st") auto
  have s1: "stdin st1 = stdin st" using get_drives_frame [of E drives MAX_DRIVES st] g by simp
  obtain r st2 where sd: "show_drives E d1 n st1 = (r, st2)" by fastforce
  have r: "r = None" using assms g sd by (auto simp: main_step_def split: option.splits)
  have s2: "stdin st2 = stdin st1" using show_drives_frame [of E d1 n st1] sd r by simp
  define st3 where "st3 = show_options n st2"
  have s3: "stdin st3 = stdin st" using s1 s2
    by (simp add: st3_def show_options_def Let_def printf_frame)
  obtain chars rest where f: "fgets 16 (stdin st3) = Some (chars, rest)"
    using assms g sd r by (auto simp: main_step_def Let_def st3_def split: option.splits)
  have ne: "stdin st3 \<noteq> []" and rest: "rest = snd (fgets_chars 15 (stdin st3))"
    using f by (auto simp: fgets_def split: if_splits)
  have lt: "length rest < length (stdin st)"
    using fgets_chars_shorter [of 15 "stdin st3"] ne rest s3 by simp
  define st4 where "st4 = st3\<lparr>stdin := rest\<rparr>"
  have s4: "stdin st4 = rest" by (simp add: st4_def)
  have cases: "s = st4 \<or> (\<exists>p. s = snd (unmount_drive E p st4)) \<or>
               (\<exists>m. s = sleep 2 (printf m st4))"
    using assms g sd r f
    by (auto simp: main_step_def Let_def st3_def st4_def case_prod_beta split: if_splits)
  then show ?thesis
  proof (elim disjE exE)
    assume "s = st4"
    then show ?thesis using s4 lt by simp
  next
    fix p assume "s = snd (unmount_drive E p st4)"
    then show ?thesis using unmount_drive_frame [of E p st4] s4 lt by simp
  next
    fix m assume "s = sleep 2 (printf m st4)"
    then show ?thesis using s4 lt by (simp add: sleep_def emit_def printf_frame)
  qed
qed

function main :: "env \<Rightarrow> (nat \<Rightarrow> DriveInfo) \<Rightarrow> state \<Rightarrow> int \<times> state" where
  "main E drives st =
     (case main_step E drives st of
        Inl r \<Rightarrow> r
      | Inr (drives', st') \<Rightarrow> main E drives' st')"
  by pat_completeness auto
termination
proof (relation "measure (\<lambda>(E, drives, st). length (stdin st))", goal_cases)
  case 1
  show ?case by simp
next
  case (2 E drives st x d s)
  then have "main_step E drives st = Inr (d, s)" by simp
  from main_step_stdin [OF this] show ?case by simp
qed

declare main.simps [simp del]

section \<open>Properties\<close>

subsection \<open>Concrete states and records used by the closed theorems\<close>

definition st_init :: state where
  "st_init = \<lparr>buffer = [], olds = 0, stdin = [], trace = []\<rparr>"

definition no_info :: DriveInfo where
  "no_info = \<lparr>path = [], size_s = [], model = [], vendor = [], transport = [],
              mount_count = 0, mountpoints = (\<lambda>j. [])\<rparr>"

subsection \<open>C5: the friendly name\<close>

lemma fold_printf_trace:
  "trace (fold (\<lambda>j. printf (f j)) js st) = trace st @ map (\<lambda>j. Printf (f j)) js"
  by (induction js arbitrary: st) (simp_all add: printf_frame)

lemma show_drive_trace:
  "\<exists>rest. trace (show_drive i d st) =
      trace st @ Printf (''['' @ dec (i + 1) @ '']  '' @ friendly_name d @ [NL]) # rest"
  by (simp add: show_drive_def Let_def printf_frame fold_printf_trace)

text \<open>
  C5, as the code has it. The name is \<open>Unknown Drive\<close> when vendor and model are both
  empty, the model alone when only the vendor is empty, vendor, a space and the model when
  neither is empty, and the vendor followed by \<open>Unknown Drive\<close> when only the model is
  empty; in each case cut to the 255 characters of \<open>friendly_name[256]\<close>. The three
  examples of the claim hold, and the name is what the first line of a record's block
  prints.
\<close>

theorem friendly_name_cases:
  "friendly_name d =
     (if vendor d = [] \<and> model d = [] then ''Unknown Drive''
      else if model d = [] then take 255 (vendor d @ '' Unknown Drive'')
      else if vendor d = [] then take 255 (model d)
      else take 255 (vendor d @ '' '' @ model d))
   \<and> friendly_name (d\<lparr>vendor := [], model := []\<rparr>) = ''Unknown Drive''
   \<and> friendly_name (d\<lparr>vendor := ''Seagate'', model := ''Desktop''\<rparr>) = ''Seagate Desktop''
   \<and> friendly_name (d\<lparr>vendor := [], model := ''X''\<rparr>) = ''X''
   \<and> (\<exists>rest. trace (show_drive i d st) =
         trace st @ Printf (''['' @ dec (i + 1) @ '']  '' @ friendly_name d @ [NL]) # rest)"
proof (intro conjI)
  show "friendly_name d =
     (if vendor d = [] \<and> model d = [] then ''Unknown Drive''
      else if model d = [] then take 255 (vendor d @ '' Unknown Drive'')
      else if vendor d = [] then take 255 (model d)
      else take 255 (vendor d @ '' '' @ model d))"
    by (simp add: friendly_name_def del: take_append)
  show "friendly_name (d\<lparr>vendor := [], model := []\<rparr>) = ''Unknown Drive''"
    by (simp add: friendly_name_def)
  show "friendly_name (d\<lparr>vendor := ''Seagate'', model := ''Desktop''\<rparr>) = ''Seagate Desktop''"
    by (simp add: friendly_name_def)
  show "friendly_name (d\<lparr>vendor := [], model := ''X''\<rparr>) = ''X''"
    by (simp add: friendly_name_def)
  show "\<exists>rest. trace (show_drive i d st) =
         trace st @ Printf (''['' @ dec (i + 1) @ '']  '' @ friendly_name d @ [NL]) # rest"
    by (rule show_drive_trace)
qed

text \<open>
  C5 as stated fails for a record with a vendor and no model: the name is neither the
  vendor joined with the (empty) model nor \<open>Unknown Drive\<close> alone.
\<close>

theorem friendly_name_counterexample:
  "friendly_name (no_info\<lparr>vendor := ''WD''\<rparr>) = ''WD Unknown Drive'' \<and>
   friendly_name (no_info\<lparr>vendor := ''WD''\<rparr>) \<noteq>
     vendor (no_info\<lparr>vendor := ''WD''\<rparr>) @ model (no_info\<lparr>vendor := ''WD''\<rparr>) \<and>
   friendly_name (no_info\<lparr>vendor := ''WD''\<rparr>) \<noteq>
     vendor (no_info\<lparr>vendor := ''WD''\<rparr>) @ '' '' @ model (no_info\<lparr>vendor := ''WD''\<rparr>)"
  by (simp add: friendly_name_def no_info_def)

subsection \<open>What exec_cmd stores for a text without terminators\<close>

lemma fgets_chars_append: "fst (fgets_chars n s) @ snd (fgets_chars n s) = s"
  by (induction n s rule: fgets_chars.induct) (auto split: prod.splits)

lemma read_lines_text:
  "NUL \<notin> set fp \<Longrightarrow>
     read_lines buf fp = buf @ take (MAX_LINE * 10 - 1 - length buf) fp"
proof (induction buf fp rule: read_lines.induct)
  case (1 buf fp)
  show ?case
  proof (cases "fp = []")
    case True
    then show ?thesis by (simp add: read_lines.simps fgets_def)
  next
    case False
    define l where "l = fst (fgets_chars (MAX_LINE - 1) fp)"
    define r where "r = snd (fgets_chars (MAX_LINE - 1) fp)"
    define k where "k = MAX_LINE * 10 - 1 - length buf"
    have lr: "l @ r = fp" by (simp add: l_def r_def fgets_chars_append)
    have f: "fgets MAX_LINE fp = Some (l, r)" using False by (simp add: fgets_def l_def r_def)
    have nl: "NUL \<notin> set l" "NUL \<notin> set r" using "1.prems" lr by auto
    have tw: "takeWhile (\<lambda>c. c \<noteq> NUL) l = l"
      using nl(1) by (auto simp: takeWhile_eq_all_conv)
    have cat: "strncat buf l (MAX_LINE * 10 - length buf - 1) = buf @ take k l"
      unfolding strncat_def tw k_def by simp
    have "read_lines buf fp = read_lines (buf @ take k l) r"
      using f cat by (simp add: read_lines.simps)
    also have "\<dots> = (buf @ take k l) @ take (MAX_LINE * 10 - 1 - length (buf @ take k l)) r"
      using "1.IH" [OF f refl nl(2)] cat by simp
    also have "MAX_LINE * 10 - 1 - length (buf @ take k l) = k - length l"
      by (simp add: k_def)
    also have "(buf @ take k l) @ take (k - length l) r = buf @ take k (l @ r)" by simp
    finally show ?thesis by (simp add: lr k_def)
  qed
qed

lemma fetch_text: "NUL \<notin> set s \<Longrightarrow> fetch (Some s) = take (MAX_LINE * 10 - 1) s"
  by (simp add: fetch_def read_lines_text)

subsection \<open>C4: the capacities of the catalog\<close>

text \<open>
  The catalog as the specification sees it: the first \<open>count\<close> records of the array, and
  of each record the first \<open>mount_count\<close> mount points.
\<close>

definition mount_points :: "DriveInfo \<Rightarrow> string list" where
  "mount_points d = map (mountpoints d) [0..<mount_count d]"

definition catalog :: "nat \<times> (nat \<Rightarrow> DriveInfo) \<times> state \<Rightarrow> DriveInfo list" where
  "catalog r = map (fst (snd r)) [0..<fst r]"

lemma sscanf_info_frame:
  "mount_count (sscanf_info s i) = mount_count i"
  "path (sscanf_info s i) = path i"
  "mountpoints (sscanf_info s i) = mountpoints i"
  by (simp_all add: sscanf_info_def split: option.splits)

lemma mount_loop_count:
  "mount_count info \<le> 8 \<Longrightarrow> mount_count (fst (mount_loop line info st)) \<le> 8"
proof (induction line info st rule: mount_loop.induct)
  case (1 info st)
  then show ?case by simp
next
  case (2 l info st)
  show ?case
  proof (cases "mount_count info < 8")
    case False
    then show ?thesis using "2.prems" by simp
  next
    case True
    obtain line' st' where s: "strtok None [NL] st = (line', st')" by fastforce
    define info' where "info' =
       (if cell (buffer st) l = CHR ''/''
        then info\<lparr>mountpoints :=
                    (mountpoints info)
                      (mount_count info := take (MAX_PATH - 1) (cstr (buffer st) l)),
                  mount_count := mount_count info + 1\<rparr>
        else info)"
    have le: "mount_count info' \<le> 8" using True by (simp add: info'_def)
    have "mount_count (fst (mount_loop line' info' st')) \<le> 8"
      using "2.IH" [OF True info'_def s [symmetric] le] .
    then show ?thesis using True s by (simp add: Let_def info'_def)
  qed
qed

lemma get_drive_info_count: "mount_count (fst (get_drive_info E d info st)) \<le> 8"
  by (simp add: get_drive_info_def Let_def case_prod_beta mount_loop_count sscanf_info_frame)

lemma drives_loop_bounds:
  assumes "count \<le> m" and "\<forall>i<count. mount_count (drives i) \<le> 8"
  shows "fst (drives_loop E line count drives m st) \<le> m \<and>
         (\<forall>i < fst (drives_loop E line count drives m st).
            mount_count (fst (snd (drives_loop E line count drives m st)) i) \<le> 8)"
  using assms
proof (induction E line count drives m st rule: drives_loop.induct)
  case (1 E count drives m st)
  then show ?case by simp
next
  case (2 E l count drives m st)
  show ?case
  proof (cases "count < m")
    case False
    then show ?thesis using "2.prems" by simp
  next
    case True
    obtain info st1 where g: "get_drive_info E l (drives count) st = (info, st1)" by fastforce
    obtain line' st2 where s: "strtok None [NL] st1 = (line', st2)" by fastforce
    have mc: "mount_count info \<le> 8"
      using get_drive_info_count [of E l "drives count" st] g by simp
    have a: "count + 1 \<le> m" using True by simp
    have b: "\<forall>i<count + 1. mount_count ((drives(count := info)) i) \<le> 8"
      using "2.prems"(2) mc by (simp add: less_Suc_eq)
    note ih = "2.IH" [OF True g [symmetric] s [symmetric] a b]
    have eq: "drives_loop E (Some l) count drives m st =
          drives_loop E line' (count + 1) (drives(count := info)) m st2"
      using True g s by simp
    show ?thesis unfolding eq by (rule ih)
  qed
qed

text \<open>
  C4. Whatever the external queries report, \<open>get_drives\<close> called with the capacity of
  \<open>main\<close> returns at most 32 records, and every record of the catalog has at most 8
  mount points.
\<close>

theorem catalog_capacity:
  "length (catalog (get_drives E drives MAX_DRIVES st)) \<le> 32 \<and>
   (\<forall>r \<in> set (catalog (get_drives E drives MAX_DRIVES st)). length (mount_points r) \<le> 8)"
proof -
  define root where "root = get_root_drive E 64 st"
  define st2 where "st2 = snd (exec_cmd E (list_cmd (fst root)) (snd root))"
  define tk where "tk = strtok (Some 0) [NL] st2"
  have eq: "get_drives E drives MAX_DRIVES st = drives_loop E (fst tk) 0 drives MAX_DRIVES (snd tk)"
    by (simp add: get_drives_def Let_def case_prod_beta root_def st2_def tk_def exec_cmd_def)
  have "fst (drives_loop E (fst tk) 0 drives MAX_DRIVES (snd tk)) \<le> MAX_DRIVES \<and>
         (\<forall>i < fst (drives_loop E (fst tk) 0 drives MAX_DRIVES (snd tk)).
            mount_count (fst (snd (drives_loop E (fst tk) 0 drives MAX_DRIVES (snd tk))) i) \<le> 8)"
    by (rule drives_loop_bounds) simp_all
  then show ?thesis
    unfolding eq by (auto simp: catalog_def mount_points_def MAX_DRIVES_def)
qed

subsection \<open>The events of an eject attempt\<close>

lemma exec_cmd_trace: "trace (snd (exec_cmd E cmd st)) = trace st @ [Popen cmd]"
  by (simp add: exec_cmd_def)

lemma system_trace:
  "trace (snd (system E cmd st)) = trace st @ [System cmd (fst (system E cmd st))]"
  by (simp add: system_def Let_def emit_def)

lemma show_header_trace:
  "\<exists>rc. trace (show_header E st) =
     trace st @ [System ''clear'' rc, Printf ([NL] @ ''Ejectd  External Drive Ejector'' @ [NL]),
                 Printf (''Safe removal tool for external drives'' @ [NL, NL])]"
  by (simp add: show_header_def Let_def case_prod_beta printf_frame system_trace)

lemma cmd_distinct:
  "unmount_cmd a \<noteq> poweroff_cmd b" "''clear'' \<noteq> poweroff_cmd b" "''clear'' \<noteq> unmount_cmd a"
proof -
  have u: "take 11 (unmount_cmd a) = ''udisksctl u''"
    by (simp add: unmount_cmd_def MAX_LINE_def)
  have p: "take 11 (poweroff_cmd b) = ''udisksctl p''"
    by (simp add: poweroff_cmd_def MAX_LINE_def)
  show "unmount_cmd a \<noteq> poweroff_cmd b"
  proof
    assume "unmount_cmd a = poweroff_cmd b"
    then have "''udisksctl u'' = ''udisksctl p''" using u p by simp
    then show False by simp
  qed
  show "''clear'' \<noteq> poweroff_cmd b"
  proof
    assume "''clear'' = poweroff_cmd b"
    then have "take 11 ''clear'' = ''udisksctl p''" using p by simp
    then show False by simp
  qed
  show "''clear'' \<noteq> unmount_cmd a"
  proof
    assume "''clear'' = unmount_cmd a"
    then have "take 11 ''clear'' = ''udisksctl u''" using u by simp
    then show False by simp
  qed
qed

text \<open>The events of one eject attempt, or of one round: what the trace has gained.\<close>

definition events_since :: "state \<Rightarrow> state \<Rightarrow> event list" where
  "events_since st st' = drop (length (trace st)) (trace st')"

text \<open>
  An unmount that reported failure: a \<open>system\<close> call of the unmount command that returned
  a status other than 0. The power-off step: a \<open>system\<close> call of the power-off command
  for the selected device.
\<close>

definition unmount_failure :: "event list \<Rightarrow> bool" where
  "unmount_failure evs = (\<exists>e \<in> set evs. \<exists>pp rc. e = System (unmount_cmd pp) rc \<and> rc \<noteq> 0)"

definition poweroff_invoked :: "string \<Rightarrow> event list \<Rightarrow> bool" where
  "poweroff_invoked drive_path evs = (\<exists>e \<in> set evs. \<exists>rc. e = System (poweroff_cmd drive_path) rc)"

lemma unmount_body_trace:
  "\<exists>evs. trace (snd (unmount_body E p f st)) = trace st @ evs \<and>
         (fst (unmount_body E p f st) \<longleftrightarrow> f \<or> unmount_failure evs) \<and>
         \<not> poweroff_invoked dp evs"
proof -
  define pp where "pp = take (MAX_PATH - 1) (''/dev/'' @ cstr (buffer st) p)"
  define st2 where "st2 = strip_newline 0 (snd (exec_cmd E (mountpoint_cmd pp) st))"
  have t2: "trace st2 = trace st @ [Popen (mountpoint_cmd pp)]"
    by (simp add: st2_def strip_newline_frame exec_cmd_trace)
  show ?thesis
  proof (cases "length (cstr (buffer st2) 0) > 0")
    case False
    then have "unmount_body E p f st = (f, st2)"
      by (simp add: unmount_body_def Let_def case_prod_beta pp_def st2_def exec_cmd_def)
    then show ?thesis using t2
      by (auto simp: unmount_failure_def poweroff_invoked_def)
  next
    case True
    define m where "m = ''   Unmounting '' @ pp @ '' ('' @ cstr (buffer st2) 0 @ '')...'' @ [NL]"
    define st3 where "st3 = printf m st2"
    define ret where "ret = system_rc E (trace st3) (unmount_cmd pp)"
    define st4 where "st4 = emit (System (unmount_cmd pp) ret) st3"
    have t4: "trace st4 = trace st @ [Popen (mountpoint_cmd pp), Printf m,
                                      System (unmount_cmd pp) ret]"
      by (simp add: st4_def st3_def emit_def printf_frame t2)
    have ub: "unmount_body E p f st =
          (if ret = 0 then (f, printf (''     Success'' @ [NL]) st4)
           else (True, printf (''     Failed'' @ [NL]) st4))"
      using True
      by (simp add: unmount_body_def Let_def case_prod_beta pp_def st2_def exec_cmd_def
            system_def m_def st3_def ret_def st4_def)
    show ?thesis
    proof (cases "ret = 0")
      case True
      then have "unmount_body E p f st = (f, printf (''     Success'' @ [NL]) st4)"
        using ub by simp
      then show ?thesis using t4 True cmd_distinct
        by (auto simp: unmount_failure_def poweroff_invoked_def printf_frame)
    next
      case False
      then have "unmount_body E p f st = (True, printf (''     Failed'' @ [NL]) st4)"
        using ub by simp
      then show ?thesis using t4 False cmd_distinct
        by (auto simp: unmount_failure_def poweroff_invoked_def printf_frame)
    qed
  qed
qed

lemma unmount_failure_append:
  "unmount_failure (xs @ ys) \<longleftrightarrow> unmount_failure xs \<or> unmount_failure ys"
  by (auto simp: unmount_failure_def)

lemma poweroff_invoked_append:
  "poweroff_invoked dp (xs @ ys) \<longleftrightarrow> poweroff_invoked dp xs \<or> poweroff_invoked dp ys"
  by (auto simp: poweroff_invoked_def)

lemma unmount_loop_trace:
  "\<exists>evs. trace (snd (unmount_loop E part f st)) = trace st @ evs \<and>
         (fst (unmount_loop E part f st) \<longleftrightarrow> f \<or> unmount_failure evs) \<and>
         \<not> poweroff_invoked dp evs"
proof (induction E part f st rule: unmount_loop.induct)
  case (1 E f st)
  show ?case by (simp add: unmount_failure_def poweroff_invoked_def)
next
  case (2 E p f st)
  obtain f' st1 where b: "unmount_body E p f st = (f', st1)" by fastforce
  obtain part' st2 where s: "strtok None [NL] st1 = (part', st2)" by fastforce
  obtain evs1 where e1: "trace st1 = trace st @ evs1" "f' \<longleftrightarrow> f \<or> unmount_failure evs1"
    "\<not> poweroff_invoked dp evs1"
    using unmount_body_trace [of E p f st dp] b by auto
  have t2: "trace st2 = trace st1" using strtok_frame(2) [of None "[NL]" st1] s by simp
  obtain evs2 where e2: "trace (snd (unmount_loop E part' f' st2)) = trace st2 @ evs2"
    "fst (unmount_loop E part' f' st2) \<longleftrightarrow> f' \<or> unmount_failure evs2"
    "\<not> poweroff_invoked dp evs2"
    using "2.IH" [OF b [symmetric] s [symmetric]] by auto
  have eq: "unmount_loop E (Some p) f st = unmount_loop E part' f' st2" using b s by simp
  show ?case
    unfolding eq using e1 e2 t2
    by (intro exI [of _ "evs1 @ evs2"])
       (simp add: unmount_failure_append poweroff_invoked_append)
qed


definition poweroff_failed_msg :: event where
  "poweroff_failed_msg = Printf ('' Failed to power off the drive.'' @ [NL, NL])"

lemma unmount_drive_events:
  "\<exists>evs. trace (snd (unmount_drive E dp st)) = trace st @ evs \<and>
         (fst (unmount_drive E dp st) \<longleftrightarrow> \<not> unmount_failure evs) \<and>
         (poweroff_invoked dp evs \<longleftrightarrow> \<not> unmount_failure evs) \<and>
         (\<not> unmount_failure evs \<longrightarrow>
            (\<exists>rc. System (poweroff_cmd dp) rc \<in> set evs \<and>
                  (rc \<noteq> 0 \<longrightarrow> poweroff_failed_msg \<in> set evs)))"
proof -
  define stb where "stb = printf ('' Unmounting all partitions...'' @ [NL, NL])
                            (printf ('' Selected: '' @ dp @ [NL, NL]) (show_header E st))"
  define st1 where "st1 = snd (exec_cmd E (partitions_cmd dp) stb)"
  define part where "part = fst (strtok (Some 0) [NL] st1)"
  define st2 where "st2 = snd (strtok (Some 0) [NL] st1)"
  define failed where "failed = fst (unmount_loop E part False st2)"
  define st3 where "st3 = snd (unmount_loop E part False st2)"
  obtain rc0 where "trace (show_header E st) =
     trace st @ [System ''clear'' rc0, Printf ([NL] @ ''Ejectd  External Drive Ejector'' @ [NL]),
                 Printf (''Safe removal tool for external drives'' @ [NL, NL])]"
    using show_header_trace [of E st] by auto
  then obtain pre where pre: "trace st2 = trace st @ pre" "\<not> unmount_failure pre"
    "\<not> poweroff_invoked dp pre"
    using cmd_distinct
    by (auto simp: st2_def st1_def stb_def strtok_frame exec_cmd_trace printf_frame
          unmount_failure_def poweroff_invoked_def)
  obtain evs where evs: "trace st3 = trace st2 @ evs" "failed \<longleftrightarrow> unmount_failure evs"
    "\<not> poweroff_invoked dp evs"
    using unmount_loop_trace [of E part False st2 dp] by (auto simp: failed_def st3_def)
  show ?thesis
  proof (cases failed)
    case True
    define post where "post =
       [Printf ([NL] @ '' Some partitions failed to unmount.'' @ [NL]),
        Printf ('' The drive may still be in use.'' @ [NL, NL]),
        Printf ''Press Enter to continue...'', Getchar]"
    have r: "fst (unmount_drive E dp st) = False"
      "trace (snd (unmount_drive E dp st)) = trace st3 @ post"
      using True
      by (simp_all add: unmount_drive_def Let_def case_prod_beta stb_def st1_def part_def
            st2_def failed_def st3_def exec_cmd_def getchar_def emit_def printf_frame post_def)
    have "trace (snd (unmount_drive E dp st)) = trace st @ (pre @ evs @ post)"
      using r pre evs by simp
    moreover have "unmount_failure (pre @ evs @ post)"
      using True evs by (simp add: unmount_failure_append)
    moreover have "\<not> poweroff_invoked dp (pre @ evs @ post)"
      using pre evs by (simp add: poweroff_invoked_append) (simp add: poweroff_invoked_def post_def)
    ultimately show ?thesis using r by (intro exI [of _ "pre @ evs @ post"]) simp
  next
    case False
    define st4 where "st4 = printf ([NL] @ '' Powering off the drive...'' @ [NL, NL]) st3"
    define ret where "ret = system_rc E (trace st4) (poweroff_cmd dp)"
    define msgs where "msgs =
       (if ret = 0 then
          [Printf ('' Drive '' @ dp @ '' has been safely ejected!'' @ [NL]),
           Printf ('' You can now safely remove the drive.'' @ [NL, NL])]
        else [poweroff_failed_msg])"
    define post where "post =
       [Printf ([NL] @ '' Powering off the drive...'' @ [NL, NL]),
        System (poweroff_cmd dp) ret] @ msgs @ [Printf ''Press Enter to continue...'', Getchar]"
    have r: "fst (unmount_drive E dp st) = True"
      "trace (snd (unmount_drive E dp st)) = trace st3 @ post"
      using False
      by (simp_all add: unmount_drive_def Let_def case_prod_beta stb_def st1_def part_def
            st2_def failed_def st3_def exec_cmd_def getchar_def emit_def printf_frame post_def
            system_def st4_def ret_def msgs_def poweroff_failed_msg_def)
    have "trace (snd (unmount_drive E dp st)) = trace st @ (pre @ evs @ post)"
      using r pre evs by simp
    moreover have "\<not> unmount_failure post"
      using cmd_distinct(1) [where b = dp, symmetric]
      by (auto simp: unmount_failure_def post_def msgs_def poweroff_failed_msg_def)
    then have "\<not> unmount_failure (pre @ evs @ post)"
      using False evs pre by (simp add: unmount_failure_append)
    moreover have po: "System (poweroff_cmd dp) ret \<in> set (pre @ evs @ post)"
      by (simp add: post_def)
    then have "poweroff_invoked dp (pre @ evs @ post)"
      unfolding poweroff_invoked_def by blast
    moreover have "ret \<noteq> 0 \<longrightarrow> poweroff_failed_msg \<in> set (pre @ evs @ post)"
      by (simp add: post_def msgs_def)
    ultimately show ?thesis using r po by (intro exI [of _ "pre @ evs @ post"]) auto
  qed
qed

lemma unmount_drive_since:
  "trace (snd (unmount_drive E dp st)) =
     trace st @ events_since st (snd (unmount_drive E dp st))"
  using unmount_drive_events [of E dp st] by (auto simp: events_since_def)

subsection \<open>Evaluation on concrete environments\<close>

lemmas eval_defs =
  exec_cmd_def Let_def st_init_def no_info_def poke_str_def strip_newline_def strchr_def
  cstr_def cell_def fetch_text strtok_def strspn_def strcspn_def
  MAX_LINE_def MAX_PATH_def MAX_DRIVES_def
  get_root_drive_def get_drives_def get_drive_info_def sscanf_info_def scan_s_def isspace_def
  root_cmd_def list_cmd_def info_cmd_def mountpoint_cmd_def partitions_cmd_def
  unmount_cmd_def poweroff_cmd_def
  printf_def getchar_def sleep_def system_def emit_def show_header_def
  unmount_body_def unmount_drive_def events_since_def

text \<open>
  A disk \<open>/dev/sdb\<close> with one partition, mounted; unmounting works, the power-off
  command fails.
\<close>

definition E_pofail :: env where
  "E_pofail =
     \<lparr>popen_out = (\<lambda>h cmd.
        if cmd = partitions_cmd ''/dev/sdb'' then Some (''sdb1'' @ [NL])
        else if cmd = mountpoint_cmd ''/dev/sdb1'' then Some (''/media/usb'' @ [NL])
        else Some []),
      system_rc = (\<lambda>h cmd. if cmd = poweroff_cmd ''/dev/sdb'' then 1 else 0)\<rparr>"

lemma E_pofail_run:
  "unmount_drive E_pofail ''/dev/sdb'' st_init =
     (True,
      \<lparr>buffer = [NUL] @ ''media/usb'' @ [NUL, NUL], olds = 10, stdin = [],
       trace =
         [System ''clear'' 0,
          Printf ([NL] @ ''Ejectd  External Drive Ejector'' @ [NL]),
          Printf (''Safe removal tool for external drives'' @ [NL, NL]),
          Printf ('' Selected: /dev/sdb'' @ [NL, NL]),
          Printf ('' Unmounting all partitions...'' @ [NL, NL]),
          Popen (partitions_cmd ''/dev/sdb''),
          Popen (mountpoint_cmd ''/dev/sdb1''),
          Printf (''   Unmounting /dev/sdb1 (/media/usb)...'' @ [NL]),
          System (unmount_cmd ''/dev/sdb1'') 0,
          Printf (''     Success'' @ [NL]),
          Popen (mountpoint_cmd ''/dev/a/usb''),
          Printf ([NL] @ '' Powering off the drive...'' @ [NL, NL]),
          System (poweroff_cmd ''/dev/sdb'') 1,
          Printf ('' Failed to power off the drive.'' @ [NL, NL]),
          Printf ''Press Enter to continue...'',
          Getchar]\<rparr>)"
  by (simp add: eval_defs E_pofail_def)

subsection \<open>C10: the result of unmount_drive and the power-off status\<close>

text \<open>
  C10. The result of \<open>unmount_drive\<close> is true exactly when no unmount of the attempt
  reported failure. In that case the power-off command was run, and whatever status it
  returned the result is true; a status other than 0 only adds the failure message to the
  output.
\<close>

theorem unmount_drive_result_ignores_poweroff:
  "(fst (unmount_drive E dp st) \<longleftrightarrow>
      \<not> unmount_failure (events_since st (snd (unmount_drive E dp st)))) \<and>
   (\<not> unmount_failure (events_since st (snd (unmount_drive E dp st))) \<longrightarrow>
      fst (unmount_drive E dp st) = True \<and>
      (\<exists>rc. System (poweroff_cmd dp) rc \<in> set (events_since st (snd (unmount_drive E dp st))) \<and>
            (rc \<noteq> 0 \<longrightarrow>
               poweroff_failed_msg \<in> set (events_since st (snd (unmount_drive E dp st))))))"
proof -
  obtain evs where e: "trace (snd (unmount_drive E dp st)) = trace st @ evs"
    "fst (unmount_drive E dp st) \<longleftrightarrow> \<not> unmount_failure evs"
    "\<not> unmount_failure evs \<longrightarrow>
       (\<exists>rc. System (poweroff_cmd dp) rc \<in> set evs \<and> (rc \<noteq> 0 \<longrightarrow> poweroff_failed_msg \<in> set evs))"
    using unmount_drive_events [of E dp st] by blast
  have "events_since st (snd (unmount_drive E dp st)) = evs"
    using e(1) by (simp add: events_since_def)
  then show ?thesis using e(2,3) by simp
qed

text \<open>
  Witness for C10: the partition is unmounted, the power-off command returns 1, the
  failure message is printed, and the result is true.
\<close>

theorem unmount_drive_result_ignores_poweroff_witness:
  "\<not> unmount_failure (events_since st_init (snd (unmount_drive E_pofail ''/dev/sdb'' st_init))) \<and>
   fst (unmount_drive E_pofail ''/dev/sdb'' st_init) = True \<and>
   System (poweroff_cmd ''/dev/sdb'') 1
     \<in> set (events_since st_init (snd (unmount_drive E_pofail ''/dev/sdb'' st_init))) \<and>
   poweroff_failed_msg
     \<in> set (events_since st_init (snd (unmount_drive E_pofail ''/dev/sdb'' st_init)))"
proof -
  have nf: "\<not> unmount_failure
              (events_since st_init (snd (unmount_drive E_pofail ''/dev/sdb'' st_init)))"
    unfolding E_pofail_run
    by (simp add: events_since_def st_init_def unmount_failure_def cmd_distinct
          cmd_distinct(1) [symmetric])
  have ev: "System (poweroff_cmd ''/dev/sdb'') 1
     \<in> set (events_since st_init (snd (unmount_drive E_pofail ''/dev/sdb'' st_init)))"
    "poweroff_failed_msg
     \<in> set (events_since st_init (snd (unmount_drive E_pofail ''/dev/sdb'' st_init)))"
    unfolding E_pofail_run
    by (simp_all add: events_since_def st_init_def poweroff_failed_msg_def)
  show ?thesis
    using unmount_drive_result_ignores_poweroff [of E_pofail "''/dev/sdb''" st_init] nf ev
    by simp
qed

subsection \<open>C1: the eject sequence\<close>

text \<open>
  A disk \<open>/dev/sdb\<close> with two partitions, both mounted; every command succeeds.
\<close>

definition E_sdb :: env where
  "E_sdb =
     \<lparr>popen_out = (\<lambda>h cmd.
        if cmd = partitions_cmd ''/dev/sdb'' then Some (''sdb1'' @ [NL] @ ''sdb2'' @ [NL])
        else if cmd = mountpoint_cmd ''/dev/sdb1'' then Some (''/media/usb'' @ [NL])
        else if cmd = mountpoint_cmd ''/dev/sdb2'' then Some (''/media/data'' @ [NL])
        else Some []),
      system_rc = (\<lambda>h cmd. 0)\<rparr>"

text \<open>
  C1 on this disk. The mount point of the first partition, written into the buffer by
  \<open>exec_cmd\<close>, replaces the partition listing that \<open>strtok\<close> is walking: the second
  token is \<open>a/usb\<close>, the tail of \<open>/media/usb\<close>, and the loop ends behind it. The
  partition \<open>sdb2\<close> is mounted, no unmount is run for it, and the power-off command is
  run all the same.
\<close>

theorem eject_leaves_partition_mounted:
  "popen_out E_sdb [] (mountpoint_cmd ''/dev/sdb2'') = Some (''/media/data'' @ [NL]) \<and>
   unmount_drive E_sdb ''/dev/sdb'' st_init =
     (True,
      \<lparr>buffer = [NUL] @ ''media/usb'' @ [NUL, NUL], olds = 10, stdin = [],
       trace =
         [System ''clear'' 0,
          Printf ([NL] @ ''Ejectd  External Drive Ejector'' @ [NL]),
          Printf (''Safe removal tool for external drives'' @ [NL, NL]),
          Printf ('' Selected: /dev/sdb'' @ [NL, NL]),
          Printf ('' Unmounting all partitions...'' @ [NL, NL]),
          Popen (partitions_cmd ''/dev/sdb''),
          Popen (mountpoint_cmd ''/dev/sdb1''),
          Printf (''   Unmounting /dev/sdb1 (/media/usb)...'' @ [NL]),
          System (unmount_cmd ''/dev/sdb1'') 0,
          Printf (''     Success'' @ [NL]),
          Popen (mountpoint_cmd ''/dev/a/usb''),
          Printf ([NL] @ '' Powering off the drive...'' @ [NL, NL]),
          System (poweroff_cmd ''/dev/sdb'') 0,
          Printf ('' Drive /dev/sdb has been safely ejected!'' @ [NL]),
          Printf ('' You can now safely remove the drive.'' @ [NL, NL]),
          Printf ''Press Enter to continue...'',
          Getchar]\<rparr>)"
  by (simp add: eval_defs E_sdb_def)

text \<open>A disk with one mounted partition whose unmount fails.\<close>

definition E_busy :: env where
  "E_busy =
     \<lparr>popen_out = (\<lambda>h cmd.
        if cmd = partitions_cmd ''/dev/sdb'' then Some (''sdb1'' @ [NL])
        else if cmd = mountpoint_cmd ''/dev/sdb1'' then Some (''/media/usb'' @ [NL])
        else Some []),
      system_rc = (\<lambda>h cmd. if cmd = unmount_cmd ''/dev/sdb1'' then 1 else 0)\<rparr>"

lemma E_busy_run:
  "unmount_drive E_busy ''/dev/sdb'' st_init =
     (False,
      \<lparr>buffer = [NUL] @ ''media/usb'' @ [NUL, NUL], olds = 10, stdin = [],
       trace =
         [System ''clear'' 0,
          Printf ([NL] @ ''Ejectd  External Drive Ejector'' @ [NL]),
          Printf (''Safe removal tool for external drives'' @ [NL, NL]),
          Printf ('' Selected: /dev/sdb'' @ [NL, NL]),
          Printf ('' Unmounting all partitions...'' @ [NL, NL]),
          Popen (partitions_cmd ''/dev/sdb''),
          Popen (mountpoint_cmd ''/dev/sdb1''),
          Printf (''   Unmounting /dev/sdb1 (/media/usb)...'' @ [NL]),
          System (unmount_cmd ''/dev/sdb1'') 1,
          Printf (''     Failed'' @ [NL]),
          Popen (mountpoint_cmd ''/dev/a/usb''),
          Printf ([NL] @ '' Some partitions failed to unmount.'' @ [NL]),
          Printf ('' The drive may still be in use.'' @ [NL, NL]),
          Printf ''Press Enter to continue...'',
          Getchar]\<rparr>)"
  by (simp add: eval_defs E_busy_def)

text \<open>
  What the code does guarantee of C1: the power-off command is run if and only if no
  unmount command run in the attempt reported failure; after a failure the power-off step
  is skipped and the result is false.
\<close>

theorem poweroff_iff_no_unmount_failure:
  "(poweroff_invoked dp (events_since st (snd (unmount_drive E dp st))) \<longleftrightarrow>
      \<not> unmount_failure (events_since st (snd (unmount_drive E dp st)))) \<and>
   (unmount_failure (events_since st (snd (unmount_drive E dp st))) \<longrightarrow>
      fst (unmount_drive E dp st) = False \<and>
      \<not> poweroff_invoked dp (events_since st (snd (unmount_drive E dp st))))"
proof -
  obtain evs where e: "trace (snd (unmount_drive E dp st)) = trace st @ evs"
    "fst (unmount_drive E dp st) \<longleftrightarrow> \<not> unmount_failure evs"
    "poweroff_invoked dp evs \<longleftrightarrow> \<not> unmount_failure evs"
    using unmount_drive_events [of E dp st] by blast
  have "events_since st (snd (unmount_drive E dp st)) = evs"
    using e(1) by (simp add: events_since_def)
  then show ?thesis using e(2,3) by simp
qed

text \<open>Witness: the unmount of \<open>sdb1\<close> fails, and no power-off is run.\<close>

theorem poweroff_iff_no_unmount_failure_witness:
  "unmount_failure (events_since st_init (snd (unmount_drive E_busy ''/dev/sdb'' st_init))) \<and>
   fst (unmount_drive E_busy ''/dev/sdb'' st_init) = False \<and>
   \<not> poweroff_invoked ''/dev/sdb''
        (events_since st_init (snd (unmount_drive E_busy ''/dev/sdb'' st_init)))"
proof -
  have "System (unmount_cmd ''/dev/sdb1'') 1
          \<in> set (events_since st_init (snd (unmount_drive E_busy ''/dev/sdb'' st_init)))"
    unfolding E_busy_run by (simp add: events_since_def st_init_def)
  then have "unmount_failure
          (events_since st_init (snd (unmount_drive E_busy ''/dev/sdb'' st_init)))"
    unfolding unmount_failure_def by (intro bexI [of _ "System (unmount_cmd ''/dev/sdb1'') 1"]) auto
  then show ?thesis
    using poweroff_iff_no_unmount_failure [of "''/dev/sdb''" st_init E_busy] by simp
qed

subsection \<open>C2: the fields of a record after a refresh\<close>

text \<open>
  Two refreshes. At the first the only external disk is \<open>/dev/sdb\<close>, with all four
  detail tokens. At the second (the device listing has been asked for before) it is
  \<open>/dev/sdc\<close>, whose detail line has the size only.
\<close>

definition E_swap :: env where
  "E_swap =
     \<lparr>popen_out = (\<lambda>h cmd.
        if cmd = root_cmd then Some (''sda'' @ [NL])
        else if cmd = list_cmd ''sda'' then
          (if Popen (list_cmd ''sda'') \<in> set h then Some (''/dev/sdc'' @ [NL])
           else Some (''/dev/sdb'' @ [NL]))
        else if cmd = info_cmd ''/dev/sdb'' then Some (''14.9G Cruzer SanDisk usb'' @ [NL])
        else if cmd = info_cmd ''/dev/sdc'' then Some (''29.7G'' @ [NL])
        else Some []),
      system_rc = (\<lambda>h cmd. 0)\<rparr>"

definition sdb_info :: DriveInfo where
  "sdb_info = \<lparr>path = ''/dev/sdb'', size_s = ''14.9G'', model = ''Cruzer'', vendor = ''SanDisk'',
               transport = ''usb'', mount_count = 0, mountpoints = (\<lambda>j. [])\<rparr>"

definition st_after_sdb :: state where
  "st_after_sdb =
     \<lparr>buffer = [NUL] @ ''4.9G Cruzer SanDisk usb'' @ [NL, NUL], olds = 0, stdin = [],
      trace = [Popen root_cmd, Popen (list_cmd ''sda''), Popen (info_cmd ''/dev/sdb''),
               Popen (mountpoint_cmd (''14.9G Cruzer SanDisk usb'' @ [NL]))]\<rparr>"

lemma E_swap_first_stdin:
  "get_drives E_swap (\<lambda>i. no_info) MAX_DRIVES (st_init\<lparr>stdin := s\<rparr>) =
     (1, (\<lambda>i. no_info)(0 := sdb_info), st_after_sdb\<lparr>stdin := s\<rparr>)"
  by (simp add: eval_defs E_swap_def sdb_info_def st_after_sdb_def)

lemma E_swap_first:
  "get_drives E_swap (\<lambda>i. no_info) MAX_DRIVES st_init =
     (1, (\<lambda>i. no_info)(0 := sdb_info), st_after_sdb)"
  using E_swap_first_stdin [of "[]"] by (simp add: st_init_def st_after_sdb_def)

definition sdc_info :: DriveInfo where
  "sdc_info = \<lparr>path = ''/dev/sdc'', size_s = ''29.7G'', model = ''Cruzer'', vendor = ''SanDisk'',
               transport = ''usb'', mount_count = 0, mountpoints = (\<lambda>j. [])\<rparr>"

lemma E_swap_second:
  "fst (snd (get_drives E_swap ((\<lambda>i. no_info)(0 := sdb_info)) MAX_DRIVES st_after_sdb)) 0 =
     sdc_info"
  by (simp add: eval_defs E_swap_def sdb_info_def sdc_info_def st_after_sdb_def)

text \<open>
  C2 at the second refresh. \<open>get_drive_info\<close> resets the path and the mount count of
  the record and nothing else, and \<open>sscanf\<close> writes only the fields it finds a token
  for: the record of \<open>/dev/sdc\<close> shows the model, vendor and transport of \<open>/dev/sdb\<close>,
  which the array held from the refresh before, where the claim has them empty.
\<close>

theorem stale_fields_after_refresh:
  "get_drives E_swap (\<lambda>i. no_info) MAX_DRIVES st_init =
     (1, (\<lambda>i. no_info)(0 := sdb_info), st_after_sdb) \<and>
   popen_out E_swap (trace st_after_sdb) (info_cmd ''/dev/sdc'') = Some (''29.7G'' @ [NL]) \<and>
   fst (snd (get_drives E_swap ((\<lambda>i. no_info)(0 := sdb_info)) MAX_DRIVES st_after_sdb)) 0 =
     \<lparr>path = ''/dev/sdc'', size_s = ''29.7G'', model = ''Cruzer'', vendor = ''SanDisk'',
      transport = ''usb'', mount_count = 0, mountpoints = (\<lambda>j. [])\<rparr>"
proof -
  have "popen_out E_swap (trace st_after_sdb) (info_cmd ''/dev/sdc'') = Some (''29.7G'' @ [NL])"
    by (simp add: E_swap_def info_cmd_def root_cmd_def list_cmd_def MAX_LINE_def)
  then show ?thesis using E_swap_first E_swap_second by (simp add: sdc_info_def)
qed

subsection \<open>C7: the exit status\<close>

definition no_drives_msg :: string where
  "no_drives_msg = '' No external drives found.'' @ [NL, NL]"

definition invalid_msg :: string where
  "invalid_msg = [NL] @ '' Invalid selection.'' @ [NL]"

lemma show_drives_exit:
  "fst (show_drives E drives count st) = (if count = 0 then Some 1 else None)"
  by (simp add: show_drives_def Let_def)

lemma show_drives_empty_trace:
  "\<exists>evs. trace (snd (show_drives E drives 0 st)) =
      evs @ [Printf no_drives_msg, Printf ''Press Enter to exit...'', Getchar]"
  by (simp add: show_drives_def Let_def getchar_def emit_def printf_frame no_drives_msg_def)

text \<open>The state in which a round of the loop reads the operator's choice.\<close>

definition at_prompt :: "env \<Rightarrow> (nat \<Rightarrow> DriveInfo) \<Rightarrow> state \<Rightarrow> state" where
  "at_prompt E drives st =
     (case get_drives E drives MAX_DRIVES st of
        (drive_count, drives1, st1) \<Rightarrow>
          show_options drive_count (snd (show_drives E drives1 drive_count st1)))"

lemma show_options_frame: "stdin (show_options n st) = stdin st"
  by (simp add: show_options_def Let_def printf_frame)

lemma at_prompt_stdin:
  "fst (get_drives E drives MAX_DRIVES st) \<noteq> 0 \<Longrightarrow> stdin (at_prompt E drives st) = stdin st"
  using get_drives_frame [of E drives MAX_DRIVES st]
  by (cases "get_drives E drives MAX_DRIVES st")
     (simp add: at_prompt_def show_options_frame show_drives_frame show_drives_exit)

lemma main_step_empty:
  "fst (get_drives E drives MAX_DRIVES st) = 0 \<Longrightarrow>
     main_step E drives st =
       Inl (1, snd (show_drives E (fst (snd (get_drives E drives MAX_DRIVES st))) 0
                      (snd (snd (get_drives E drives MAX_DRIVES st)))))"
  by (cases "get_drives E drives MAX_DRIVES st")
     (simp add: main_step_def show_drives_def Let_def)

lemma main_step_choice:
  assumes "fst (get_drives E drives MAX_DRIVES st) \<noteq> 0"
  shows "main_step E drives st =
     (case fgets 16 (stdin st) of
        None \<Rightarrow> Inl (0, at_prompt E drives st)
      | Some (chars, rest) \<Rightarrow>
          (let st4 = (at_prompt E drives st)\<lparr>stdin := rest\<rparr>;
               drives1 = fst (snd (get_drives E drives MAX_DRIVES st));
               input = normalize_input chars
           in if input = ''q'' then Inl (0, printf ([NL] @ ''Goodbye!'' @ [NL]) st4)
              else if input = ''r'' then Inr (drives1, st4)
              else if atoi input \<ge> 1 \<and>
                      atoi input \<le> int (fst (get_drives E drives MAX_DRIVES st)) then
                     Inr (drives1,
                          snd (unmount_drive E (path (drives1 (nat (atoi input - 1)))) st4))
                   else Inr (drives1, sleep 2 (printf invalid_msg st4))))"
proof -
  obtain n d1 st1 where g: "get_drives E drives MAX_DRIVES st = (n, d1, st1)"
    by (cases "get_drives E drives MAX_DRIVES st") auto
  have n: "n \<noteq> 0" using assms g by simp
  obtain st2 where sd: "show_drives E d1 n st1 = (None, st2)"
    using show_drives_exit [of E d1 n st1] n by (cases "show_drives E d1 n st1") auto
  have ap: "at_prompt E drives st = show_options n st2" by (simp add: at_prompt_def g sd)
  have si: "stdin (show_options n st2) = stdin st"
    using at_prompt_stdin [OF assms] ap by simp
  show ?thesis
    by (auto simp: main_step_def g sd ap si Let_def case_prod_beta invalid_msg_def
          split: option.splits)
qed


lemma main_unfold:
  "main E drives st =
     (case main_step E drives st of Inl r \<Rightarrow> r | Inr (drives', st') \<Rightarrow> main E drives' st')"
  by (rule main.simps)

lemma fgets_q:
  "c \<noteq> NL \<Longrightarrow> fgets 16 (c # NL # rest) = Some ([c, NL], rest)"
  by (simp add: fgets_def numeral_eq_Suc)

lemma tolower_q: "tolower (CHR ''q'') = CHR ''q''" "tolower (CHR ''Q'') = CHR ''q''"
  by code_simp+

text \<open>
  C7. When the catalog of the round is not empty and the operator's line is \<open>q\<close> or
  \<open>Q\<close>, \<open>main\<close> returns 0. When the first catalog is empty, the process ends with
  status 1, and the last things it did were to print that no drive was found, to print the
  prompt and to read the acknowledgment.
\<close>

theorem exit_status:
  "(fst (get_drives E drives MAX_DRIVES st) \<noteq> 0 \<and>
    (stdin st = ''q'' @ [NL] @ rest \<or> stdin st = ''Q'' @ [NL] @ rest) \<longrightarrow>
      fst (main E drives st) = 0) \<and>
   (fst (get_drives E drives MAX_DRIVES st) = 0 \<longrightarrow>
      fst (main E drives st) = 1 \<and>
      (\<exists>evs. trace (snd (main E drives st)) =
         evs @ [Printf no_drives_msg, Printf ''Press Enter to exit...'', Getchar]))"
proof (intro conjI impI)
  assume a: "fst (get_drives E drives MAX_DRIVES st) \<noteq> 0 \<and>
    (stdin st = ''q'' @ [NL] @ rest \<or> stdin st = ''Q'' @ [NL] @ rest)"
  then obtain c where c: "stdin st = c # NL # rest" "c = CHR ''q'' \<or> c = CHR ''Q''" by auto
  have n: "normalize_input [c, NL] = ''q''" and cn: "c \<noteq> NL"
    using c(2) by (auto simp: normalize_input_def tolower_q)
  have "main_step E drives st =
          Inl (0, printf ([NL] @ ''Goodbye!'' @ [NL]) ((at_prompt E drives st)\<lparr>stdin := rest\<rparr>))"
    using a by (simp add: main_step_choice c(1) fgets_q [OF cn] n Let_def)
  then show "fst (main E drives st) = 0" by (subst main_unfold) simp
next
  assume z: "fst (get_drives E drives MAX_DRIVES st) = 0"
  have m: "main E drives st =
       (1, snd (show_drives E (fst (snd (get_drives E drives MAX_DRIVES st))) 0
                      (snd (snd (get_drives E drives MAX_DRIVES st)))))"
    by (subst main_unfold) (simp add: main_step_empty [OF z])
  show "fst (main E drives st) = 1" by (simp add: m)
  show "\<exists>evs. trace (snd (main E drives st)) =
         evs @ [Printf no_drives_msg, Printf ''Press Enter to exit...'', Getchar]"
    unfolding m using show_drives_empty_trace by simp
qed

text \<open>A host on which no query can be launched: every \<open>popen\<close> fails.\<close>

definition E_none :: env where
  "E_none = \<lparr>popen_out = (\<lambda>h cmd. None), system_rc = (\<lambda>h cmd. 0)\<rparr>"

lemma E_none_count: "fst (get_drives E_none (\<lambda>i. no_info) MAX_DRIVES st_init) = 0"
  by (simp add: eval_defs E_none_def fetch_def)

text \<open>
  Witness for C7: with one external disk and the line \<open>Q\<close> the status is 0; with no
  query answering, the catalog is empty and the status is 1.
\<close>

theorem exit_status_witness:
  "fst (get_drives E_swap (\<lambda>i. no_info) MAX_DRIVES (st_init\<lparr>stdin := ''Q'' @ [NL]\<rparr>)) \<noteq> 0 \<and>
   fst (main E_swap (\<lambda>i. no_info) (st_init\<lparr>stdin := ''Q'' @ [NL]\<rparr>)) = 0 \<and>
   fst (get_drives E_none (\<lambda>i. no_info) MAX_DRIVES st_init) = 0 \<and>
   fst (main E_none (\<lambda>i. no_info) st_init) = 1"
proof -
  have a: "fst (get_drives E_swap (\<lambda>i. no_info) MAX_DRIVES (st_init\<lparr>stdin := ''Q'' @ [NL]\<rparr>)) \<noteq> 0"
    by (simp add: E_swap_first_stdin)
  have s: "stdin (st_init\<lparr>stdin := ''Q'' @ [NL]\<rparr>) = ''Q'' @ [NL] @ []" by simp
  have "fst (main E_swap (\<lambda>i. no_info) (st_init\<lparr>stdin := ''Q'' @ [NL]\<rparr>)) = 0"
    using exit_status [of E_swap "\<lambda>i. no_info" "st_init\<lparr>stdin := ''Q'' @ [NL]\<rparr>" "[]"] a s
    by blast
  moreover have "fst (main E_none (\<lambda>i. no_info) st_init) = 1"
    using exit_status [of E_none "\<lambda>i. no_info" st_init] E_none_count by blast
  ultimately show ?thesis using a E_none_count by simp
qed

subsection \<open>C6: a round of the loop on an invalid choice\<close>

lemma strip_newline_trace: "trace (strip_newline p st) = trace st"
  by (rule strip_newline_frame(3))

lemma mount_loop_trace: "trace (snd (mount_loop line info st)) = trace st"
proof (induction line info st rule: mount_loop.induct)
  case (1 info st)
  show ?case by simp
next
  case (2 l info st)
  show ?case
  proof (cases "mount_count info < 8")
    case False
    then show ?thesis by simp
  next
    case True
    obtain line' st' where s: "strtok None [NL] st = (line', st')" by fastforce
    have "trace st' = trace st" using strtok_frame(2) [of None "[NL]" st] s by simp
    then show ?thesis using True s "2.IH" [OF True refl s [symmetric]]
      by (simp add: Let_def)
  qed
qed

lemma get_drive_info_trace:
  "\<exists>evs. trace (snd (get_drive_info E d info st)) = trace st @ evs \<and>
         (\<forall>e \<in> set evs. \<exists>cmd. e = Popen cmd)"
  by (simp add: get_drive_info_def Let_def case_prod_beta exec_cmd_trace mount_loop_trace
        strtok_frame)

lemma drives_loop_trace:
  "\<exists>evs. trace (snd (snd (drives_loop E line count drives m st))) = trace st @ evs \<and>
         (\<forall>e \<in> set evs. \<exists>cmd. e = Popen cmd)"
proof (induction E line count drives m st rule: drives_loop.induct)
  case (1 E count drives m st)
  show ?case by simp
next
  case (2 E l count drives m st)
  show ?case
  proof (cases "count < m")
    case False
    then show ?thesis by simp
  next
    case True
    obtain info st1 where g: "get_drive_info E l (drives count) st = (info, st1)" by fastforce
    obtain line' st2 where s: "strtok None [NL] st1 = (line', st2)" by fastforce
    obtain evs1 where e1: "trace st1 = trace st @ evs1" "\<forall>e \<in> set evs1. \<exists>cmd. e = Popen cmd"
      using get_drive_info_trace [of E l "drives count" st] g by auto
    have t2: "trace st2 = trace st1" using strtok_frame(2) [of None "[NL]" st1] s by simp
    have "\<exists>evs. trace (snd (snd (drives_loop E line' (count + 1) (drives(count := info)) m
                                     st2))) = trace st2 @ evs \<and>
                (\<forall>e \<in> set evs. \<exists>cmd. e = Popen cmd)"
      by (rule "2.IH" [OF True g [symmetric] s [symmetric]])
    then obtain evs2 where e2:
      "trace (snd (snd (drives_loop E line' (count + 1) (drives(count := info)) m st2)))
         = trace st2 @ evs2" "\<forall>e \<in> set evs2. \<exists>cmd. e = Popen cmd"
      by blast
    have eq: "drives_loop E (Some l) count drives m st =
          drives_loop E line' (count + 1) (drives(count := info)) m st2"
      using True g s by simp
    show ?thesis unfolding eq using e1 e2 t2
      by (intro exI [of _ "evs1 @ evs2"]) auto
  qed
qed

lemma get_drives_trace:
  "\<exists>evs. trace (snd (snd (get_drives E drives m st))) = trace st @ Popen root_cmd # evs \<and>
         (\<forall>e \<in> set evs. \<exists>cmd. e = Popen cmd)"
proof -
  define root where "root = get_root_drive E 64 st"
  define st2 where "st2 = snd (exec_cmd E (list_cmd (fst root)) (snd root))"
  define tk where "tk = strtok (Some 0) [NL] st2"
  have eq: "get_drives E drives m st = drives_loop E (fst tk) 0 drives m (snd tk)"
    by (simp add: get_drives_def Let_def case_prod_beta root_def st2_def tk_def exec_cmd_def)
  have "trace (snd tk) = trace st @ [Popen root_cmd, Popen (list_cmd (fst root))]"
    by (simp add: tk_def st2_def root_def strtok_frame exec_cmd_trace get_root_drive_def
          Let_def case_prod_beta strip_newline_frame MAX_LINE_def root_cmd_def)
  moreover obtain evs where "trace (snd (snd (drives_loop E (fst tk) 0 drives m (snd tk))))
       = trace (snd tk) @ evs" "\<forall>e \<in> set evs. \<exists>cmd. e = Popen cmd"
    using drives_loop_trace [of E "fst tk" 0 drives m "snd tk"] by auto
  ultimately show ?thesis unfolding eq
    by (intro exI [of _ "Popen (list_cmd (fst root)) # evs"]) auto
qed

text \<open>
  Events that touch no device: output, reading the acknowledgment, the pause, and the
  \<open>clear\<close> of \<open>show_header\<close>.
\<close>

definition quiet :: "event \<Rightarrow> bool" where
  "quiet e = (case e of System cmd rc \<Rightarrow> cmd = ''clear'' | Popen cmd \<Rightarrow> False | _ \<Rightarrow> True)"

lemma show_drive_quiet:
  "\<exists>evs. trace (show_drive i d st) = trace st @ evs \<and> (\<forall>e \<in> set evs. quiet e)"
  by (auto simp: show_drive_def Let_def printf_frame fold_printf_trace quiet_def)

lemma fold_show_drive_quiet:
  "\<exists>evs. trace (fold (\<lambda>i. show_drive i (drives i)) js st) = trace st @ evs \<and>
         (\<forall>e \<in> set evs. quiet e)"
proof (induction js arbitrary: st)
  case Nil
  show ?case by simp
next
  case (Cons j js)
  obtain evs1 where e1: "trace (show_drive j (drives j) st) = trace st @ evs1"
    "\<forall>e \<in> set evs1. quiet e"
    using show_drive_quiet [of j "drives j" st] by auto
  obtain evs2 where e2:
    "trace (fold (\<lambda>i. show_drive i (drives i)) js (show_drive j (drives j) st))
       = trace (show_drive j (drives j) st) @ evs2" "\<forall>e \<in> set evs2. quiet e"
    using Cons [of "show_drive j (drives j) st"] by auto
  show ?case using e1 e2 by (intro exI [of _ "evs1 @ evs2"]) auto
qed

lemma show_drives_quiet:
  "\<exists>evs. trace (snd (show_drives E drives n st)) = trace st @ evs \<and> (\<forall>e \<in> set evs. quiet e)"
proof -
  obtain rc where h: "trace (show_header E st) =
     trace st @ [System ''clear'' rc, Printf ([NL] @ ''Ejectd  External Drive Ejector'' @ [NL]),
                 Printf (''Safe removal tool for external drives'' @ [NL, NL])]"
    using show_header_trace [of E st] by auto
  show ?thesis
  proof (cases "n = 0")
    case True
    then show ?thesis using h
      by (auto simp: show_drives_def Let_def getchar_def emit_def printf_frame quiet_def)
  next
    case False
    define st3 where "st3 =
       printf (''------------------------------------------------------------'' @ [NL, NL])
         (printf (''Available Drives:'' @ [NL]) (show_header E st))"
    obtain evs where e: "trace (fold (\<lambda>i. show_drive i (drives i)) [0..<n] st3)
       = trace st3 @ evs" "\<forall>e \<in> set evs. quiet e"
      using fold_show_drive_quiet [of drives "[0..<n]" st3] by auto
    have "trace (snd (show_drives E drives n st)) =
       trace st3 @ evs @ [Printf (''------------------------------------------------------------''
                        @ [NL])]"
      using False e by (simp add: show_drives_def Let_def st3_def printf_frame)
    then show ?thesis using h e(2)
      by (auto simp: st3_def printf_frame quiet_def)
  qed
qed

lemma show_options_quiet:
  "\<exists>evs. trace (show_options n st) = trace st @ evs \<and> (\<forall>e \<in> set evs. quiet e)"
  by (auto simp: show_options_def Let_def printf_frame quiet_def)

lemma at_prompt_trace:
  "\<exists>evs. trace (at_prompt E drives st) = trace st @ Popen root_cmd # evs \<and>
         (\<forall>e \<in> set evs. (\<exists>cmd. e = Popen cmd) \<or> quiet e)"
proof -
  obtain n d1 st1 where g: "get_drives E drives MAX_DRIVES st = (n, d1, st1)"
    by (cases "get_drives E drives MAX_DRIVES st") auto
  obtain evs1 where e1: "trace st1 = trace st @ Popen root_cmd # evs1"
    "\<forall>e \<in> set evs1. \<exists>cmd. e = Popen cmd"
    using get_drives_trace [of E drives MAX_DRIVES st] g by auto
  obtain evs2 where e2: "trace (snd (show_drives E d1 n st1)) = trace st1 @ evs2"
    "\<forall>e \<in> set evs2. quiet e"
    using show_drives_quiet [of E d1 n st1] by auto
  obtain evs3 where e3: "trace (show_options n (snd (show_drives E d1 n st1)))
      = trace (snd (show_drives E d1 n st1)) @ evs3" "\<forall>e \<in> set evs3. quiet e"
    using show_options_quiet [of n "snd (show_drives E d1 n st1)"] by auto
  have "trace (at_prompt E drives st) = trace st @ Popen root_cmd # (evs1 @ evs2 @ evs3)"
    using g e1 e2 e3 by (simp add: at_prompt_def)
  then show ?thesis using e1(2) e2(2) e3(2)
    by (intro exI [of _ "evs1 @ evs2 @ evs3"]) auto
qed

definition after_invalid :: "env \<Rightarrow> (nat \<Rightarrow> DriveInfo) \<Rightarrow> state \<Rightarrow> string \<Rightarrow> state" where
  "after_invalid E drives st rest =
     sleep 2 (printf invalid_msg ((at_prompt E drives st)\<lparr>stdin := rest\<rparr>))"

text \<open>
  One read of \<open>fgets\<close> in a round whose catalog is not empty. Let the characters read
  (at most 15), cut at the newline and in lower case, be neither \<open>q\<close> nor \<open>r\<close>, and
  let the number \<open>atoi\<close> reads at their start (0 when there is none) lie outside
  1 .. drive count. Then the round prints the warning, pauses for 2 seconds and does
  nothing else: the only \<open>system\<close> call of the round is the \<open>clear\<close> of the header.
  The loop starts its next round, which begins with the root-device query of
  \<open>get_drives\<close>.
\<close>

lemma invalid_read:
  assumes "fst (get_drives E drives MAX_DRIVES st) \<noteq> 0"
    and "fgets 16 (stdin st) = Some (chars, rest)"
    and "normalize_input chars \<noteq> ''q''" and "normalize_input chars \<noteq> ''r''"
    and "\<not> (1 \<le> atoi (normalize_input chars) \<and>
            atoi (normalize_input chars) \<le> int (fst (get_drives E drives MAX_DRIVES st)))"
  shows "main_step E drives st =
           Inr (fst (snd (get_drives E drives MAX_DRIVES st)), after_invalid E drives st rest) \<and>
         trace (after_invalid E drives st rest) =
           trace (at_prompt E drives st) @ [Printf invalid_msg, Sleep 2] \<and>
         (\<forall>e \<in> set (events_since st (after_invalid E drives st rest)).
            \<forall>cmd rc. e = System cmd rc \<longrightarrow> cmd = ''clear'') \<and>
         main E drives st =
           main E (fst (snd (get_drives E drives MAX_DRIVES st)))
                (after_invalid E drives st rest) \<and>
         (\<exists>evs. trace (at_prompt E (fst (snd (get_drives E drives MAX_DRIVES st)))
                         (after_invalid E drives st rest)) =
                 trace (after_invalid E drives st rest) @ Popen root_cmd # evs)"
proof -
  have ms: "main_step E drives st =
           Inr (fst (snd (get_drives E drives MAX_DRIVES st)), after_invalid E drives st rest)"
    using assms by (auto simp: main_step_choice Let_def after_invalid_def)
  have tr: "trace (after_invalid E drives st rest) =
           trace (at_prompt E drives st) @ [Printf invalid_msg, Sleep 2]"
    by (simp add: after_invalid_def sleep_def emit_def printf_frame)
  obtain evs where e: "trace (at_prompt E drives st) = trace st @ Popen root_cmd # evs"
    "\<forall>e \<in> set evs. (\<exists>cmd. e = Popen cmd) \<or> quiet e"
    using at_prompt_trace [of E drives st] by auto
  have es: "events_since st (after_invalid E drives st rest) =
              Popen root_cmd # evs @ [Printf invalid_msg, Sleep 2]"
    using tr e(1) by (simp add: events_since_def)
  have q: "\<forall>e \<in> set (events_since st (after_invalid E drives st rest)).
            \<forall>cmd rc. e = System cmd rc \<longrightarrow> cmd = ''clear''"
    unfolding es using e(2) by (auto simp: quiet_def)
  have m: "main E drives st =
           main E (fst (snd (get_drives E drives MAX_DRIVES st)))
                (after_invalid E drives st rest)"
    by (subst main_unfold) (simp add: ms)
  show ?thesis
    using ms tr q m
      at_prompt_trace [of E "fst (snd (get_drives E drives MAX_DRIVES st))"
                          "after_invalid E drives st rest"]
    by blast
qed






















text \<open>
  A line that does not fit the 16 bytes of \<open>input\<close> is read in pieces, and each piece is
  taken for a choice of its own. After fifteen letters the round warns, and the rest of
  the line, \<open>1\<close>, is what the next round reads as its choice.
\<close>

definition line_long :: string where "line_long = ''xxxxxxxxxxxxxxx1'' @ [NL]"

lemma long_line_pieces:
  "fgets 16 line_long = Some (''xxxxxxxxxxxxxxx'', ''1'' @ [NL])"
  "atoi (normalize_input ''xxxxxxxxxxxxxxx'') = 0"
  "fgets 16 (''1'' @ [NL]) = Some (''1'' @ [NL], [])"
  "atoi (normalize_input (''1'' @ [NL])) = 1"
proof -
  show "fgets 16 line_long = Some (''xxxxxxxxxxxxxxx'', ''1'' @ [NL])"
    by (simp add: fgets_def numeral_eq_Suc line_long_def)
  show "fgets 16 (''1'' @ [NL]) = Some (''1'' @ [NL], [])"
    by (simp add: fgets_def numeral_eq_Suc)
  show "atoi (normalize_input ''xxxxxxxxxxxxxxx'') = 0" by code_simp
  show "atoi (normalize_input (''1'' @ [NL])) = 1" by code_simp
qed

lemma long_line_left_over:
  "main_step E_swap (\<lambda>i. no_info) (st_init\<lparr>stdin := line_long\<rparr>) =
     Inr ((\<lambda>i. no_info)(0 := sdb_info),
          after_invalid E_swap (\<lambda>i. no_info) (st_init\<lparr>stdin := line_long\<rparr>) (''1'' @ [NL])) \<and>
   fgets 16 (stdin (after_invalid E_swap (\<lambda>i. no_info) (st_init\<lparr>stdin := line_long\<rparr>)
                      (''1'' @ [NL]))) = Some (''1'' @ [NL], []) \<and>
   atoi (normalize_input (''1'' @ [NL])) = 1"
proof -
  have g: "get_drives E_swap (\<lambda>i. no_info) MAX_DRIVES (st_init\<lparr>stdin := line_long\<rparr>) =
     (1, (\<lambda>i. no_info)(0 := sdb_info), st_after_sdb\<lparr>stdin := line_long\<rparr>)"
    by (rule E_swap_first_stdin)
  have h1: "fst (get_drives E_swap (\<lambda>i. no_info) MAX_DRIVES (st_init\<lparr>stdin := line_long\<rparr>)) \<noteq> 0"
    unfolding g by simp
  have n: "normalize_input ''xxxxxxxxxxxxxxx'' = ''xxxxxxxxxxxxxxx''" by code_simp
  have h2: "fgets 16 (stdin (st_init\<lparr>stdin := line_long\<rparr>)) =
            Some (''xxxxxxxxxxxxxxx'', ''1'' @ [NL])"
    using long_line_pieces(1) by simp
  have h3: "normalize_input ''xxxxxxxxxxxxxxx'' \<noteq> ''q''" "normalize_input ''xxxxxxxxxxxxxxx'' \<noteq> ''r''"
    unfolding n by simp_all
  have h4: "\<not> (1 \<le> atoi (normalize_input ''xxxxxxxxxxxxxxx'') \<and>
              atoi (normalize_input ''xxxxxxxxxxxxxxx'')
                \<le> int (fst (get_drives E_swap (\<lambda>i. no_info) MAX_DRIVES
                               (st_init\<lparr>stdin := line_long\<rparr>))))"
    by (simp add: long_line_pieces(2))
  have s: "stdin (after_invalid E_swap (\<lambda>i. no_info) (st_init\<lparr>stdin := line_long\<rparr>)
                    (''1'' @ [NL])) = ''1'' @ [NL]"
    by (simp add: after_invalid_def sleep_def emit_def printf_frame)
  show ?thesis
    using invalid_read [OF h1 h2 h3 h4] long_line_pieces(3,4)
    unfolding g s by simp
qed

section \<open>The static buffer under strtok\<close>

subsection \<open>Reading the buffer below a terminator\<close>

lemma takeWhile_take_stop:
  "n < length xs \<Longrightarrow> \<not> P (xs ! n) \<Longrightarrow> takeWhile P (take (Suc n) xs) = takeWhile P xs"
proof (induction xs arbitrary: n)
  case Nil
  then show ?case by simp
next
  case (Cons x xs)
  show ?case
  proof (cases n)
    case 0
    then show ?thesis using Cons.prems by simp
  next
    case (Suc m)
    then show ?thesis using Cons.prems Cons.IH [of m] by simp
  qed
qed

lemma length_takeWhile_stop:
  "n < length xs \<Longrightarrow> \<not> P (xs ! n) \<Longrightarrow> length (takeWhile P xs) \<le> n"
proof (induction xs arbitrary: n)
  case Nil
  then show ?case by simp
next
  case (Cons x xs)
  show ?case
  proof (cases n)
    case 0
    then show ?thesis using Cons.prems by simp
  next
    case (Suc m)
    then show ?thesis using Cons.prems Cons.IH [of m] by simp
  qed
qed

lemma cstr_take:
  assumes "n < length b" "b ! n = NUL" "p \<le> n"
  shows "cstr (take (Suc n) b) p = cstr b p"
proof -
  have "drop p (take (Suc n) b) = take (Suc (n - p)) (drop p b)"
    using assms(3) by (simp add: drop_take Suc_diff_le)
  moreover have "n - p < length (drop p b)" "drop p b ! (n - p) = NUL"
    using assms by simp_all
  ultimately show ?thesis
    using takeWhile_take_stop [of "n - p" "drop p b" "\<lambda>c. c \<noteq> NUL"] by (simp add: cstr_def)
qed

lemma cstr_le:
  assumes "n < length b" "b ! n = NUL" "p \<le> n"
  shows "p + length (cstr b p) \<le> n"
proof -
  have "n - p < length (drop p b)" "drop p b ! (n - p) = NUL" using assms by simp_all
  then have "length (cstr b p) \<le> n - p"
    using length_takeWhile_stop [of "n - p" "drop p b" "\<lambda>c. c \<noteq> NUL"] by (simp add: cstr_def)
  then show ?thesis using assms(3) by simp
qed

lemma cstr_nth:
  "i < length (cstr b p) \<Longrightarrow> cstr b p ! i = b ! (p + i) \<and> b ! (p + i) \<noteq> NUL \<and> p + i < length b"
proof -
  assume a: "i < length (cstr b p)"
  have le: "length (cstr b p) \<le> length (drop p b)"
    by (simp add: cstr_def length_takeWhile_le del: length_drop)
  have "cstr b p ! i = drop p b ! i" using a by (simp add: cstr_def takeWhile_nth)
  moreover have "cstr b p ! i \<noteq> NUL"
    using a nth_mem [of i "cstr b p"] set_takeWhileD [of "cstr b p ! i" "\<lambda>c. c \<noteq> NUL" "drop p b"]
    by (simp add: cstr_def)
  moreover have "p + i < length b" using a le by simp
  ultimately show ?thesis by simp
qed

lemma cell_cstr_end: "cell b (p + length (cstr b p)) = NUL"
proof (cases "p + length (cstr b p) < length b")
  case False
  then show ?thesis by (simp add: cell_def)
next
  case True
  then have "length (takeWhile (\<lambda>c. c \<noteq> NUL) (drop p b)) < length (drop p b)"
    by (simp add: cstr_def)
  then have "\<not> (drop p b ! length (takeWhile (\<lambda>c. c \<noteq> NUL) (drop p b)) \<noteq> NUL)"
    by (rule nth_length_takeWhile)
  then show ?thesis using True by (simp add: cell_def cstr_def)
qed


subsection \<open>strtok below a terminator\<close>

definition tok_start :: "string \<Rightarrow> nat \<Rightarrow> string \<Rightarrow> nat" where
  "tok_start b p d = p + strspn (cstr b p) d"

definition tok_end :: "string \<Rightarrow> nat \<Rightarrow> string \<Rightarrow> nat" where
  "tok_end b p d = tok_start b p d + strcspn (cstr b (tok_start b p d)) d"

definition start :: "nat option \<Rightarrow> state \<Rightarrow> nat" where
  "start s st = (case s of None \<Rightarrow> olds st | Some q \<Rightarrow> q)"

lemma strtok_alt:
  "strtok s d st =
     (if cell (buffer st) (tok_start (buffer st) (start s st) d) = NUL
      then (None, st\<lparr>olds := tok_start (buffer st) (start s st) d\<rparr>)
      else if cell (buffer st) (tok_end (buffer st) (start s st) d) = NUL
      then (Some (tok_start (buffer st) (start s st) d),
            st\<lparr>olds := tok_end (buffer st) (start s st) d\<rparr>)
      else (Some (tok_start (buffer st) (start s st) d),
            st\<lparr>buffer := (buffer st)[tok_end (buffer st) (start s st) d := NUL],
               olds := Suc (tok_end (buffer st) (start s st) d)\<rparr>))"
  by (simp add: strtok_def Let_def tok_start_def tok_end_def start_def)

lemma tok_pos:
  assumes "n < length b" "b ! n = NUL" "p \<le> n"
  shows "p \<le> tok_start b p d" "tok_start b p d \<le> tok_end b p d" "tok_end b p d \<le> n"
proof -
  have a: "strspn (cstr b p) d \<le> length (cstr b p)"
    by (simp add: strspn_def length_takeWhile_le)
  have s: "tok_start b p d \<le> n" using cstr_le [OF assms] a by (simp add: tok_start_def)
  have c: "strcspn (cstr b (tok_start b p d)) d \<le> length (cstr b (tok_start b p d))"
    by (simp add: strcspn_def length_takeWhile_le)
  show "p \<le> tok_start b p d" by (simp add: tok_start_def)
  show "tok_start b p d \<le> tok_end b p d" by (simp add: tok_end_def)
  show "tok_end b p d \<le> n" using cstr_le [OF assms(1,2) s] c by (simp add: tok_end_def)
qed

lemma strtok_within:
  assumes "n < length (buffer st)" "buffer st ! n = NUL" "start s st \<le> n"
  shows "olds (snd (strtok s d st)) \<le> n"
    and "n < length (buffer (snd (strtok s d st)))"
    and "buffer (snd (strtok s d st)) ! n = NUL"
    and "\<And>t. fst (strtok s d st) = Some t \<Longrightarrow> start s st \<le> t \<and> t \<le> n"
proof -
  note tp = tok_pos [OF assms, of d]
  have e: "cell (buffer st) (tok_end (buffer st) (start s st) d) \<noteq> NUL \<Longrightarrow>
           tok_end (buffer st) (start s st) d < n"
    using tp(3) assms(1,2) by (cases "tok_end (buffer st) (start s st) d = n")
      (auto simp: cell_def)
  show "olds (snd (strtok s d st)) \<le> n"
    using tp e by (auto simp: strtok_alt)
  show "n < length (buffer (snd (strtok s d st)))"
    using assms(1) by (simp add: strtok_frame)
  have "(buffer st)[k := NUL] ! n = NUL" for k
    using assms(1,2) by (cases "k = n") simp_all
  then show "buffer (snd (strtok s d st)) ! n = NUL"
    using assms(2) by (simp add: strtok_alt)
  show "\<And>t. fst (strtok s d st) = Some t \<Longrightarrow> start s st \<le> t \<and> t \<le> n"
    using tp by (auto simp: strtok_alt split: if_splits)
qed


lemma tok_start_props:
  assumes "cell b (tok_start b p d) \<noteq> NUL"
  shows "cstr b (tok_start b p d) \<noteq> []" "hd (cstr b (tok_start b p d)) \<notin> set d"
    "0 < strcspn (cstr b (tok_start b p d)) d"
proof -
  define p1 where "p1 = tok_start b p d"
  have lt: "p1 < length b" using assms by (auto simp: cell_def p1_def split: if_splits)
  have bp1: "b ! p1 \<noteq> NUL" using assms lt by (simp add: cell_def p1_def)
  have dr: "drop p1 b = b ! p1 # drop (Suc p1) b" using lt by (simp add: Cons_nth_drop_Suc)
  have ne: "cstr b p1 \<noteq> []" using dr bp1 by (simp add: cstr_def)
  have le: "strspn (cstr b p) d \<le> length (cstr b p)"
    by (simp add: strspn_def length_takeWhile_le)
  have spn: "drop p1 b = drop (strspn (cstr b p) d) (drop p b)"
    by (simp add: p1_def tok_start_def add.commute)
  from le have "cstr b p1 = drop (strspn (cstr b p) d) (cstr b p)"
    unfolding cstr_def spn by (rule takeWhile_drop_le)
  also have "\<dots> = dropWhile (\<lambda>c. c \<in> set d) (cstr b p)"
    by (simp add: strspn_def dropWhile_eq_drop)
  finally have hd: "hd (cstr b p1) \<notin> set d"
    using ne hd_dropWhile [of "\<lambda>c. c \<in> set d" "cstr b p"] by simp
  show "cstr b (tok_start b p d) \<noteq> []" using ne by (simp add: p1_def)
  show "hd (cstr b (tok_start b p d)) \<notin> set d" using hd by (simp add: p1_def)
  show "0 < strcspn (cstr b (tok_start b p d)) d"
    using ne hd by (cases "cstr b p1") (auto simp: strcspn_def p1_def)
qed

lemma takeWhile_update_stop:
  "k < length (takeWhile P ys) \<Longrightarrow> \<not> P x \<Longrightarrow> takeWhile P (ys[k := x]) = take k ys"
proof (induction ys arbitrary: k)
  case Nil
  then show ?case by simp
next
  case (Cons y ys)
  show ?case
  proof (cases k)
    case 0
    then show ?thesis using Cons.prems by simp
  next
    case (Suc m)
    then show ?thesis using Cons.prems Cons.IH [of m] by (auto split: if_splits)
  qed
qed

lemma strtok_token:
  assumes "fst (strtok s d st) = Some t"
  shows "cstr (buffer (snd (strtok s d st))) t =
           takeWhile (\<lambda>c. c \<notin> set d) (cstr (buffer st) t)"
    and "cstr (buffer (snd (strtok s d st))) t \<noteq> []"
proof -
  define b where "b = buffer st"
  define e where "e = tok_end b (start s st) d"
  define k where "k = strcspn (cstr b t) d"
  have nz: "cell b (tok_start b (start s st) d) \<noteq> NUL" and t: "t = tok_start b (start s st) d"
    using assms by (auto simp: strtok_alt b_def split: if_splits)
  have ek: "e = t + k" by (simp add: e_def tok_end_def t k_def)
  have kpos: "0 < k" using tok_start_props(3) [OF nz] by (simp add: k_def t)
  have kle: "k \<le> length (cstr b t)" by (simp add: k_def strcspn_def length_takeWhile_le)
  have tw: "takeWhile (\<lambda>c. c \<notin> set d) (cstr b t) = take k (cstr b t)"
    unfolding k_def strcspn_def by (rule takeWhile_eq_take)
  have main: "cstr (buffer (snd (strtok s d st))) t = take k (cstr b t)"
  proof (cases "cell b e = NUL")
    case True
    have "\<not> k < length (cstr b t)"
    proof
      assume "k < length (cstr b t)"
      then have "b ! (t + k) \<noteq> NUL \<and> t + k < length b" using cstr_nth [of k b t] by simp
      then show False using True ek by (simp add: cell_def)
    qed
    then have "take k (cstr b t) = cstr b t" using kle by simp
    moreover have "buffer (snd (strtok s d st)) = b"
      using nz True by (simp add: strtok_alt b_def e_def)
    ultimately show ?thesis by simp
  next
    case False
    have "k \<noteq> length (cstr b t)"
      using False cell_cstr_end [of b t] ek by auto
    then have klt: "k < length (takeWhile (\<lambda>c. c \<noteq> NUL) (drop t b))"
      using kle by (simp add: cstr_def)
    have "buffer (snd (strtok s d st)) = b[e := NUL]"
      using nz False by (simp add: strtok_alt b_def e_def)
    then have "cstr (buffer (snd (strtok s d st))) t =
               takeWhile (\<lambda>c. c \<noteq> NUL) ((drop t b)[k := NUL])"
      using ek by (simp add: cstr_def drop_update_swap)
    also have "\<dots> = take k (drop t b)" using klt by (simp add: takeWhile_update_stop)
    also have "\<dots> = take k (cstr b t)"
      using kle unfolding cstr_def
      by (metis takeWhile_eq_take take_take min.absorb1 cstr_def)
    finally show ?thesis .
  qed
  show "cstr (buffer (snd (strtok s d st))) t =
           takeWhile (\<lambda>c. c \<notin> set d) (cstr (buffer st) t)"
    using main tw by (simp add: b_def)
  show "cstr (buffer (snd (strtok s d st))) t \<noteq> []"
    using main kpos kle by (cases "cstr b t") auto
qed


subsection \<open>The buffer after a query: the output, with terminators written into it\<close>

definition masked :: "string \<Rightarrow> string \<Rightarrow> bool" where
  "masked out b \<longleftrightarrow>
     length out < length b \<and> b ! length out = NUL \<and>
     (\<forall>i < length out. b ! i = out ! i \<or> b ! i = NUL)"

lemma masked_poke: "masked out (poke_str out b)"
  by (simp add: masked_def poke_str_def nth_append)

lemma nth_update_cases:
  "xs[k := x] ! i = (if k = i \<and> k < length xs then x else xs ! i)"
  by (cases "k < length xs") (auto simp: nth_list_update list_update_beyond)

lemma masked_update: "masked out b \<Longrightarrow> masked out (b[k := NUL])"
  by (auto simp: masked_def nth_update_cases)

lemma masked_strtok: "masked out (buffer st) \<Longrightarrow> masked out (buffer (snd (strtok s d st)))"
  by (simp add: strtok_alt masked_update)

lemma masked_strip: "masked out (buffer st) \<Longrightarrow> masked out (buffer (strip_newline p st))"
  by (simp add: strip_newline_def masked_update split: option.splits)

lemma masked_token:
  assumes "masked out b" "t \<le> length out"
  shows "t + length (cstr b t) \<le> length out"
    and "cstr b t = take (length (cstr b t)) (drop t out)"
proof -
  show le: "t + length (cstr b t) \<le> length out"
    using cstr_le [of "length out" b t] assms by (simp add: masked_def)
  show "cstr b t = take (length (cstr b t)) (drop t out)"
  proof (rule nth_equalityI)
    show "length (cstr b t) = length (take (length (cstr b t)) (drop t out))"
      using le by simp
  next
    fix i assume i: "i < length (cstr b t)"
    then have "cstr b t ! i = b ! (t + i)" "b ! (t + i) \<noteq> NUL" using cstr_nth [of i b t] by simp_all
    moreover have "t + i < length out" using i le by simp
    ultimately have "cstr b t ! i = out ! (t + i)" using assms(1) by (auto simp: masked_def)
    then show "cstr b t ! i = take (length (cstr b t)) (drop t out) ! i"
      using i le by simp
  qed
qed

lemma mount_loop_window:
  assumes "masked out (buffer st)" "olds st \<le> length out"
  shows "masked out (buffer (snd (mount_loop line info st))) \<and>
         olds (snd (mount_loop line info st)) \<le> length out"
  using assms
proof (induction line info st rule: mount_loop.induct)
  case (1 info st)
  then show ?case by simp
next
  case (2 l info st)
  show ?case
  proof (cases "mount_count info < 8")
    case False
    then show ?thesis using "2.prems" by simp
  next
    case True
    obtain line' st' where s: "strtok None [NL] st = (line', st')" by fastforce
    have m: "masked out (buffer st')" using masked_strtok [OF "2.prems"(1), of None "[NL]"] s by simp
    have "length out < length (buffer st)" "buffer st ! length out = NUL"
      using "2.prems"(1) by (simp_all add: masked_def)
    then have o: "olds st' \<le> length out"
      using strtok_within(1) [of "length out" st None "[NL]"] "2.prems"(2) s
      by (simp add: start_def)
    show ?thesis
      using True s "2.IH" [OF True refl s [symmetric] m o] by (simp add: Let_def)
  qed
qed

text \<open>The output of the mount-point query that \<open>get_drive_info\<close> runs last.\<close>

definition mount_out :: "env \<Rightarrow> nat \<Rightarrow> state \<Rightarrow> string" where
  "mount_out E drive st =
     (let st1 = snd (exec_cmd E (info_cmd (cstr (buffer st) drive)) st)
      in fetch (popen_out E (trace st1) (mountpoint_cmd (cstr (buffer st1) drive))))"

lemma get_drive_info_window:
  "masked (mount_out E d st) (buffer (snd (get_drive_info E d info st))) \<and>
   olds (snd (get_drive_info E d info st)) \<le> length (mount_out E d st)"
proof -
  define st1 where "st1 = snd (exec_cmd E (info_cmd (cstr (buffer st) d)) st)"
  define st2 where "st2 = snd (exec_cmd E (mountpoint_cmd (cstr (buffer st1) d)) st1)"
  define out where "out = mount_out E d st"
  have "buffer st2 = poke_str out (buffer st1)"
    by (simp add: st2_def exec_cmd_def out_def mount_out_def Let_def st1_def)
  then have m2: "masked out (buffer st2)" by (simp add: masked_poke)
  then have w: "length out < length (buffer st2)" "buffer st2 ! length out = NUL"
    by (simp_all add: masked_def)
  have m3: "masked out (buffer (snd (strtok (Some 0) [NL] st2)))"
    using m2 by (rule masked_strtok)
  have o3: "olds (snd (strtok (Some 0) [NL] st2)) \<le> length out"
    using strtok_within(1) [OF w, of "Some 0" "[NL]"] by (simp add: start_def)
  have "get_drive_info E d info st =
        mount_loop (fst (strtok (Some 0) [NL] st2))
          (sscanf_info (cstr (buffer st1) 0) (info\<lparr>path := cstr (buffer st) d, mount_count := 0\<rparr>))
          (snd (strtok (Some 0) [NL] st2))"
    by (simp add: get_drive_info_def Let_def case_prod_beta st1_def st2_def exec_cmd_def)
  then show ?thesis using mount_loop_window [OF m3 o3] by (simp add: out_def)
qed


lemma read_lines_no_nul: "NUL \<notin> set buf \<Longrightarrow> NUL \<notin> set (read_lines buf fp)"
proof (induction buf fp rule: read_lines.induct)
  case (1 buf fp)
  show ?case
  proof (cases "fgets MAX_LINE fp")
    case None
    then show ?thesis using "1.prems" by (simp add: read_lines.simps)
  next
    case (Some x)
    obtain line fp' where x: "x = (line, fp')" by (cases x)
    have "NUL \<notin> set (strncat buf line (MAX_LINE * 10 - length buf - 1))"
      using "1.prems" by (auto simp: strncat_def dest: in_set_takeD set_takeWhileD)
    then have "NUL \<notin> set (read_lines (strncat buf line (MAX_LINE * 10 - length buf - 1)) fp')"
      using "1.IH" Some x by simp
    then show ?thesis using Some x by (simp add: read_lines.simps)
  qed
qed

lemma fetch_no_nul: "NUL \<notin> set (fetch out)"
  by (cases out) (simp_all add: fetch_def read_lines_no_nul)

lemma takeWhile_until:
  "c \<notin> set s \<Longrightarrow> takeWhile (\<lambda>x. x \<noteq> c) (s @ c # r) = s"
  by (induction s) auto

lemma length_takeWhile_mem:
  "c \<in> set xs \<Longrightarrow> length (takeWhile (\<lambda>x. x \<noteq> c) xs) < length xs"
  by (induction xs) auto

lemma cstr_poke: "NUL \<notin> set s \<Longrightarrow> cstr (poke_str s b) 0 = s"
  by (simp add: cstr_def poke_str_def takeWhile_until)

lemma exec_cmd_overwrites:
  "fst (exec_cmd E cmd st) = 0 \<and>
   cstr (buffer (snd (exec_cmd E cmd st))) 0 = fetch (popen_out E (trace st) cmd)"
  by (simp add: exec_cmd_def cstr_poke fetch_no_nul)

text \<open>A token that lies in a query's output: not empty, and a piece of the output text.\<close>

definition piece_of :: "string \<Rightarrow> nat \<Rightarrow> string \<Rightarrow> bool" where
  "piece_of out t tok \<longleftrightarrow>
     tok \<noteq> [] \<and> t + length tok \<le> length out \<and> tok = take (length tok) (drop t out)"

lemma next_token_in_out:
  assumes "masked out (buffer st)" "olds st \<le> length out" "fst (strtok None d st) = Some t"
  shows "piece_of out t (cstr (buffer (snd (strtok None d st))) t)"
proof -
  have m: "masked out (buffer (snd (strtok None d st)))" using assms(1) by (rule masked_strtok)
  have "length out < length (buffer st)" "buffer st ! length out = NUL"
    using assms(1) by (simp_all add: masked_def)
  then have t: "t \<le> length out"
    using strtok_within(4) [where n = "length out" and st = st and s = None and t = t and d = d]
      assms(2,3)
    by (simp add: start_def)
  show ?thesis
    unfolding piece_of_def
    using masked_token [OF m t] strtok_token(2) [OF assms(3)] by simp
qed

text \<open>The output of the mount-point query in one round of the partition loop.\<close>

definition part_mount_out :: "env \<Rightarrow> nat \<Rightarrow> state \<Rightarrow> string" where
  "part_mount_out E part st =
     fetch (popen_out E (trace st)
              (mountpoint_cmd (take (MAX_PATH - 1) (''/dev/'' @ cstr (buffer st) part))))"

lemma unmount_body_buffer:
  "buffer (snd (unmount_body E p f st)) =
     buffer (strip_newline 0 (st\<lparr>buffer := poke_str (part_mount_out E p st) (buffer st)\<rparr>))"
  by (simp add: unmount_body_def Let_def case_prod_beta exec_cmd_def system_def emit_def
        printf_frame part_mount_out_def strip_newline_def split: option.splits)

lemma unmount_body_masked:
  "masked (part_mount_out E p st) (buffer (snd (unmount_body E p f st)))"
  unfolding unmount_body_buffer by (rule masked_strip) (simp add: masked_poke)

lemma strchr_lt: "strchr b p c = Some i \<Longrightarrow> i < p + length (cstr b p)"
proof -
  assume a: "strchr b p c = Some i"
  then have c: "c \<in> set (cstr b p)" and i: "i = p + length (takeWhile (\<lambda>x. x \<noteq> c) (cstr b p))"
    by (auto simp: strchr_def Let_def split: if_splits)
  have "length (takeWhile (\<lambda>x. x \<noteq> c) (cstr b p)) < length (cstr b p)"
    using c by (rule length_takeWhile_mem)
  then show ?thesis using i by simp
qed

lemma unmount_body_drop:
  assumes "length (part_mount_out E p st) < k"
  shows "drop k (buffer (snd (unmount_body E p f st))) = drop k (buffer st)"
proof -
  define out where "out = part_mount_out E p st"
  define b1 where "b1 = poke_str out (buffer st)"
  have d1: "drop k b1 = drop k (buffer st)"
    using assms by (simp add: b1_def poke_str_def out_def drop_Cons')
  have c: "cstr b1 0 = out" by (simp add: b1_def out_def part_mount_out_def cstr_poke fetch_no_nul)
  show ?thesis
  proof (cases "strchr b1 0 NL")
    case None
    then show ?thesis using d1
      by (simp add: unmount_body_buffer strip_newline_def out_def [symmetric] b1_def [symmetric])
  next
    case (Some i)
    then have "i < k" using strchr_lt [OF Some] c assms by (simp add: out_def)
    then have "drop k (b1[i := NUL]) = drop k b1" by (simp add: drop_update_cancel)
    then show ?thesis using d1 Some
      by (simp add: unmount_body_buffer strip_newline_def out_def [symmetric] b1_def [symmetric])
  qed
qed

lemma cell_drop: "cell b q = (case drop q b of [] \<Rightarrow> NUL | c # cs \<Rightarrow> c)"
  by (cases "q < length b") (auto simp: cell_def Cons_nth_drop_Suc [symmetric])

lemma drop_eq_later:
  "drop p b = drop p b2 \<Longrightarrow> p \<le> q \<Longrightarrow> drop q b = drop q b2"
  by (metis drop_drop le_add_diff_inverse2)

lemma strtok_drop:
  assumes "olds st = olds st2" "drop (olds st) (buffer st) = drop (olds st) (buffer st2)"
  shows "fst (strtok None d st) = fst (strtok None d st2)"
    and "\<And>t. fst (strtok None d st) = Some t \<Longrightarrow>
           cstr (buffer (snd (strtok None d st))) t = cstr (buffer (snd (strtok None d st2))) t"
proof -
  define p where "p = olds st"
  have later: "\<And>q. p \<le> q \<Longrightarrow> cstr (buffer st) q = cstr (buffer st2) q \<and>
                            cell (buffer st) q = cell (buffer st2) q"
    using drop_eq_later [OF assms(2)] by (simp add: cstr_def cell_drop p_def)
  have ts: "tok_start (buffer st) p d = tok_start (buffer st2) p d"
    using later [of p] by (simp add: tok_start_def)
  have ps: "p \<le> tok_start (buffer st) p d" by (simp add: tok_start_def)
  have te: "tok_end (buffer st) p d = tok_end (buffer st2) p d"
    using later [OF ps] ts by (simp add: tok_end_def)
  have pe: "p \<le> tok_end (buffer st) p d" using ps by (simp add: tok_end_def)
  have st: "start None st = p" "start None st2 = p" using assms(1) by (simp_all add: start_def p_def)
  show eq: "fst (strtok None d st) = fst (strtok None d st2)"
    using later [OF ps] later [OF pe] ts te by (simp add: strtok_alt st)
  fix t assume t: "fst (strtok None d st) = Some t"
  then have "t = tok_start (buffer st) p d" by (auto simp: strtok_alt st split: if_splits)
  then have "cstr (buffer st) t = cstr (buffer st2) t" using later [OF ps] by simp
  then show "cstr (buffer (snd (strtok None d st))) t = cstr (buffer (snd (strtok None d st2))) t"
    using strtok_token(1) [OF t] strtok_token(1) [of None d st2 t] t eq by simp
qed

subsection \<open>C9: what the loops read after an inner query\<close>

text \<open>
  C9, as the code has it. \<open>exec_cmd\<close> always returns offset 0 of the one buffer, and
  the string there is the output of the call just made. In \<open>get_drives\<close>, the token
  that \<open>strtok(NULL, ..)\<close> returns after \<open>get_drive_info\<close> is a piece of the output of
  the last mount-point query (\<open>get_drive_info\<close> has restarted \<open>strtok\<close> on it), never a
  line of the device listing. In \<open>unmount_drive\<close> the saved position is kept across the
  mount-point query: when the output of the query reaches that position, the next token is
  a piece of that output; when the output ends before it, the next token is the one
  \<open>strtok\<close> would have returned without the query, a line left over from the partition
  listing.
\<close>

theorem static_buffer_reuse:
  "fst (exec_cmd E cmd st) = 0 \<and>
   cstr (buffer (snd (exec_cmd E cmd st))) 0 = fetch (popen_out E (trace st) cmd) \<and>
   (fst (strtok None [NL] (snd (get_drive_info E d info st))) = Some t \<longrightarrow>
      piece_of (mount_out E d st) t
        (cstr (buffer (snd (strtok None [NL] (snd (get_drive_info E d info st))))) t)) \<and>
   (olds st \<le> length (part_mount_out E p st) \<and>
    fst (strtok None [NL] (snd (unmount_body E p f st))) = Some t \<longrightarrow>
      piece_of (part_mount_out E p st) t
        (cstr (buffer (snd (strtok None [NL] (snd (unmount_body E p f st))))) t)) \<and>
   (length (part_mount_out E p st) < olds st \<longrightarrow>
      fst (strtok None [NL] (snd (unmount_body E p f st))) = fst (strtok None [NL] st) \<and>
      (fst (strtok None [NL] st) = Some t \<longrightarrow>
         cstr (buffer (snd (strtok None [NL] (snd (unmount_body E p f st))))) t =
         cstr (buffer (snd (strtok None [NL] st))) t))"
proof (intro conjI impI)
  show "fst (exec_cmd E cmd st) = 0"
    and "cstr (buffer (snd (exec_cmd E cmd st))) 0 = fetch (popen_out E (trace st) cmd)"
    using exec_cmd_overwrites by simp_all
next
  assume "fst (strtok None [NL] (snd (get_drive_info E d info st))) = Some t"
  then show "piece_of (mount_out E d st) t
        (cstr (buffer (snd (strtok None [NL] (snd (get_drive_info E d info st))))) t)"
    using get_drive_info_window [of E d st info] next_token_in_out by blast
next
  assume a: "olds st \<le> length (part_mount_out E p st) \<and>
    fst (strtok None [NL] (snd (unmount_body E p f st))) = Some t"
  have "olds (snd (unmount_body E p f st)) \<le> length (part_mount_out E p st)"
    using a by (simp add: unmount_body_frame)
  then show "piece_of (part_mount_out E p st) t
        (cstr (buffer (snd (strtok None [NL] (snd (unmount_body E p f st))))) t)"
    using a unmount_body_masked [of E p st f] next_token_in_out by blast
next
  assume a: "length (part_mount_out E p st) < olds st"
  have o: "olds (snd (unmount_body E p f st)) = olds st" by (simp add: unmount_body_frame)
  have d: "drop (olds (snd (unmount_body E p f st))) (buffer (snd (unmount_body E p f st))) =
           drop (olds (snd (unmount_body E p f st))) (buffer st)"
    unfolding o by (rule unmount_body_drop [OF a])
  show eq: "fst (strtok None [NL] (snd (unmount_body E p f st))) = fst (strtok None [NL] st)"
    using strtok_drop(1) [OF o d] .
  assume "fst (strtok None [NL] st) = Some t"
  then have "fst (strtok None [NL] (snd (unmount_body E p f st))) = Some t" using eq by simp
  then show "cstr (buffer (snd (strtok None [NL] (snd (unmount_body E p f st))))) t =
         cstr (buffer (snd (strtok None [NL] st))) t"
    using strtok_drop(2) [OF o d] by simp
qed

text \<open>
  An environment in which the last mount-point query of \<open>get_drive_info\<close> prints ten
  lines, the tenth being the path of the root disk.
\<close>

definition flood :: string where
  "flood = ''/m0'' @ [NL] @ ''/m1'' @ [NL] @ ''/m2'' @ [NL] @ ''/m3'' @ [NL] @ ''/m4'' @ [NL] @
           ''/m5'' @ [NL] @ ''/m6'' @ [NL] @ ''/m7'' @ [NL] @ ''/m8'' @ [NL] @ ''/dev/sda'' @ [NL]"

definition E_flood :: env where
  "E_flood = \<lparr>popen_out = (\<lambda>h cmd.
        if cmd = root_cmd then Some (''sda'' @ [NL])
        else if cmd = list_cmd ''sda'' then Some (''/dev/sdb'' @ [NL])
        else if cmd = info_cmd ''/dev/sdb'' then Some (''1G M V usb'' @ [NL])
        else if cmd = mountpoint_cmd (''1G M V usb'' @ [NL]) then Some flood
        else Some []), system_rc = (\<lambda>h cmd. 0)\<rparr>"

text \<open>A disk whose first partition is not mounted and whose second one is.\<close>

definition E_idle :: env where
  "E_idle =
     \<lparr>popen_out = (\<lambda>h cmd.
        if cmd = partitions_cmd ''/dev/sdb'' then Some (''sdb1'' @ [NL] @ ''sdb2'' @ [NL])
        else if cmd = mountpoint_cmd ''/dev/sdb1'' then Some [NL]
        else if cmd = mountpoint_cmd ''/dev/sdb2'' then Some (''/media/data'' @ [NL])
        else Some []),
      system_rc = (\<lambda>h cmd. 0)\<rparr>"

text \<open>
  The buffer as the first \<open>strtok\<close> of \<open>unmount_drive\<close> and of \<open>get_drives\<close> leaves it:
  the listing with its first line cut off, the saved position behind the cut.
\<close>

definition st_listing :: state where
  "st_listing = \<lparr>buffer = ''sdb1'' @ [NUL] @ ''sdb2'' @ [NL, NUL], olds = 5, stdin = [],
                 trace = []\<rparr>"

definition st_device :: state where
  "st_device = \<lparr>buffer = ''/dev/sdb'' @ [NUL, NUL], olds = 9, stdin = [], trace = []\<rparr>"

text \<open>
  C9 as stated fails on a listing of two partitions whose first one is not mounted: the
  mount-point query prints an empty line, which ends before the saved position, and the
  second round reads \<open>sdb2\<close>, the second line of the listing, and unmounts it.
\<close>

theorem listing_continues_after_short_output:
  "unmount_drive E_idle ''/dev/sdb'' st_init =
     (True,
      \<lparr>buffer = [NUL] @ ''media/data'' @ [NUL, NUL], olds = 11, stdin = [],
       trace =
         [System ''clear'' 0,
          Printf ([NL] @ ''Ejectd  External Drive Ejector'' @ [NL]),
          Printf (''Safe removal tool for external drives'' @ [NL, NL]),
          Printf ('' Selected: /dev/sdb'' @ [NL, NL]),
          Printf ('' Unmounting all partitions...'' @ [NL, NL]),
          Popen (partitions_cmd ''/dev/sdb''),
          Popen (mountpoint_cmd ''/dev/sdb1''),
          Popen (mountpoint_cmd ''/dev/sdb2''),
          Printf (''   Unmounting /dev/sdb2 (/media/data)...'' @ [NL]),
          System (unmount_cmd ''/dev/sdb2'') 0,
          Printf (''     Success'' @ [NL]),
          Popen (mountpoint_cmd ''/dev/a''),
          Printf ([NL] @ '' Powering off the drive...'' @ [NL, NL]),
          System (poweroff_cmd ''/dev/sdb'') 0,
          Printf ('' Drive /dev/sdb has been safely ejected!'' @ [NL]),
          Printf ('' You can now safely remove the drive.'' @ [NL, NL]),
          Printf ''Press Enter to continue...'',
          Getchar]\<rparr>)"
  by (simp add: eval_defs E_idle_def)

lemma flood_next:
  "fst (strtok None [NL] (snd (get_drive_info E_flood 0 no_info st_device))) = Some 36"
  by (simp add: eval_defs E_flood_def flood_def st_device_def)

lemma sdb_next:
  "length (part_mount_out E_sdb 0 st_listing) = 11"
  "fst (strtok None [NL] (snd (unmount_body E_sdb 0 False st_listing))) = Some 5"
  by (simp_all add: eval_defs E_sdb_def st_listing_def part_mount_out_def)

lemma idle_next:
  "length (part_mount_out E_idle 0 st_listing) = 1"
  "fst (strtok None [NL] st_listing) = Some 5"
  by (simp_all add: eval_defs E_idle_def st_listing_def part_mount_out_def)

text \<open>
  Witness for C9: after \<open>get_drive_info\<close> the next token of \<open>get_drives\<close> lies at
  offset 36 of the ten-line mount-point output; after the query for a mounted first
  partition the next token of \<open>unmount_drive\<close> lies at offset 5 of \<open>/media/usb\<close>; after
  the query for an unmounted one it is the token of the listing.
\<close>

theorem static_buffer_reuse_witness:
  "fst (strtok None [NL] (snd (get_drive_info E_flood 0 no_info st_device))) = Some 36 \<and>
   piece_of (mount_out E_flood 0 st_device) 36
     (cstr (buffer (snd (strtok None [NL] (snd (get_drive_info E_flood 0 no_info st_device))))) 36) \<and>
   olds st_listing \<le> length (part_mount_out E_sdb 0 st_listing) \<and>
   fst (strtok None [NL] (snd (unmount_body E_sdb 0 False st_listing))) = Some 5 \<and>
   piece_of (part_mount_out E_sdb 0 st_listing) 5
     (cstr (buffer (snd (strtok None [NL] (snd (unmount_body E_sdb 0 False st_listing))))) 5) \<and>
   length (part_mount_out E_idle 0 st_listing) < olds st_listing \<and>
   fst (strtok None [NL] (snd (unmount_body E_idle 0 False st_listing))) =
     fst (strtok None [NL] st_listing)"
proof -
  have o: "olds st_listing = 5" by (simp add: st_listing_def)
  show ?thesis
    using static_buffer_reuse [of E_flood _ st_device 0 no_info 36]
          static_buffer_reuse [of E_sdb _ st_listing _ _ 5 0 False]
          static_buffer_reuse [of E_idle _ st_listing _ _ _ 0 False]
          flood_next sdb_next idle_next o
    by simp
qed

section \<open>Two runs of the catalog builder\<close>

subsection \<open>Buffers that agree below a terminator\<close>

text \<open>
  Two buffers agree up to \<open>n\<close> when they have the same cells up to \<open>n\<close> and a
  terminator at \<open>n\<close>: no string that starts at or before \<open>n\<close> tells them apart.
\<close>

definition agree :: "nat \<Rightarrow> string \<Rightarrow> string \<Rightarrow> bool" where
  "agree n b b2 \<longleftrightarrow>
     n < length b \<and> n < length b2 \<and> b ! n = NUL \<and> take (Suc n) b = take (Suc n) b2"

lemma agree_nth: "agree n b b2 \<Longrightarrow> i \<le> n \<Longrightarrow> b ! i = b2 ! i"
  by (metis agree_def le_imp_less_Suc nth_take)

lemma agree_cstr:
  assumes "agree n b b2" "p \<le> n"
  shows "cstr b p = cstr b2 p"
proof -
  have "b2 ! n = NUL" using agree_nth [OF assms(1), of n] assms(1) by (simp add: agree_def)
  then have "cstr (take (Suc n) b2) p = cstr b2 p"
    using assms by (intro cstr_take) (simp_all add: agree_def)
  moreover have "cstr (take (Suc n) b) p = cstr b p"
    using assms by (intro cstr_take) (simp_all add: agree_def)
  ultimately show ?thesis using assms(1) by (simp add: agree_def)
qed

lemma agree_cell: "agree n b b2 \<Longrightarrow> q \<le> n \<Longrightarrow> cell b q = cell b2 q"
  using agree_nth [of n b b2 q] by (simp add: cell_def agree_def)

lemma agree_update: "agree n b b2 \<Longrightarrow> agree n (b[k := NUL]) (b2[k := NUL])"
  by (simp add: agree_def nth_update_cases take_update_swap)

lemma agree_poke_fresh: "agree (length s) (poke_str s b) (poke_str s b2)"
  by (simp add: agree_def poke_str_def nth_append)

lemma agree_poke:
  assumes "agree n b b2"
  shows "agree (max n (length s)) (poke_str s b) (poke_str s b2)"
proof (cases "n \<le> length s")
  case True
  then show ?thesis using agree_poke_fresh [of s b b2] by (simp add: max_def)
next
  case False
  then have n: "length s < n" by simp
  have t: "take (Suc n) (poke_str s b) = s @ NUL # drop (Suc (length s)) (take (Suc n) b)"
    for b :: string
  proof -
    obtain k where k: "n = Suc (length s + k)" using n less_iff_Suc_add by auto
    show ?thesis unfolding k by (simp add: poke_str_def drop_take)
  qed
  have nth: "poke_str s b ! n = b ! n" if "n < length b" for b :: string
    using n that by (simp add: poke_str_def nth_append nth_Cons')
  have "n < length (poke_str s b)" "n < length (poke_str s b2)"
    using assms by (auto simp add: poke_str_length agree_def)
  moreover have "poke_str s b ! n = NUL" using nth [of b] assms by (simp add: agree_def)
  moreover have "take (Suc n) (poke_str s b) = take (Suc n) (poke_str s b2)"
    using assms unfolding t by (simp add: agree_def)
  ultimately show ?thesis using n by (simp add: agree_def max_def)
qed

lemma agree_tok:
  assumes "agree n b b2" "p \<le> n"
  shows "tok_start b p d = tok_start b2 p d" "tok_end b p d = tok_end b2 p d"
    "tok_start b p d \<le> n" "tok_end b p d \<le> n"
proof -
  have w: "n < length b" "b ! n = NUL" using assms(1) by (simp_all add: agree_def)
  show s: "tok_start b p d = tok_start b2 p d"
    using agree_cstr [OF assms] by (simp add: tok_start_def)
  show sn: "tok_start b p d \<le> n" using tok_pos [OF w assms(2), of d] by simp
  show "tok_end b p d = tok_end b2 p d"
    using agree_cstr [OF assms(1) sn] s by (simp add: tok_end_def)
  show "tok_end b p d \<le> n" using tok_pos(3) [OF w assms(2)] .
qed

text \<open>Two states agree when their buffers do and \<open>strtok\<close> has saved the same position.\<close>

definition sim :: "nat \<Rightarrow> state \<Rightarrow> state \<Rightarrow> bool" where
  "sim n st st2 \<longleftrightarrow> agree n (buffer st) (buffer st2) \<and> olds st = olds st2 \<and> olds st \<le> n"

lemma strtok_sim:
  assumes "agree n (buffer st) (buffer st2)" "start s st = start s st2" "start s st \<le> n"
  shows "fst (strtok s d st) = fst (strtok s d st2)"
    and "sim n (snd (strtok s d st)) (snd (strtok s d st2))"
    and "\<And>t. fst (strtok s d st) = Some t \<Longrightarrow> t \<le> n"
proof -
  note t = agree_tok [OF assms(1,3), of d]
  have c1: "cell (buffer st) (tok_start (buffer st) (start s st) d) =
            cell (buffer st2) (tok_start (buffer st) (start s st) d)"
    using agree_cell [OF assms(1) t(3)] .
  have c2: "cell (buffer st) (tok_end (buffer st) (start s st) d) =
            cell (buffer st2) (tok_end (buffer st) (start s st) d)"
    using agree_cell [OF assms(1) t(4)] .
  have alt2: "strtok s d st2 =
     (if cell (buffer st) (tok_start (buffer st) (start s st) d) = NUL
      then (None, st2\<lparr>olds := tok_start (buffer st) (start s st) d\<rparr>)
      else if cell (buffer st) (tok_end (buffer st) (start s st) d) = NUL
      then (Some (tok_start (buffer st) (start s st) d),
            st2\<lparr>olds := tok_end (buffer st) (start s st) d\<rparr>)
      else (Some (tok_start (buffer st) (start s st) d),
            st2\<lparr>buffer := (buffer st2)[tok_end (buffer st) (start s st) d := NUL],
               olds := Suc (tok_end (buffer st) (start s st) d)\<rparr>))"
    using t(1,2) c1 c2 assms(2) by (simp add: strtok_alt)
  show eq: "fst (strtok s d st) = fst (strtok s d st2)"
    unfolding alt2 by (simp add: strtok_alt)
  have w: "n < length (buffer st)" "buffer st ! n = NUL" using assms(1) by (simp_all add: agree_def)
  have o: "olds (snd (strtok s d st)) \<le> n" using strtok_within(1) [OF w assms(3)] .
  have "agree n (buffer (snd (strtok s d st))) (buffer (snd (strtok s d st2)))"
    unfolding alt2 using assms(1) by (simp add: strtok_alt agree_update)
  moreover have "olds (snd (strtok s d st)) = olds (snd (strtok s d st2))"
    unfolding alt2 by (simp add: strtok_alt)
  ultimately show "sim n (snd (strtok s d st)) (snd (strtok s d st2))"
    using o by (simp add: sim_def)
  show "\<And>t. fst (strtok s d st) = Some t \<Longrightarrow> t \<le> n"
    using strtok_within(4) [OF w assms(3)] by simp
qed

text \<open>
  An unchanged system: what a command prints depends on the command, not on what has
  been run before.
\<close>

definition static :: "env \<Rightarrow> bool" where
  "static E \<longleftrightarrow> (\<forall>h h' cmd. popen_out E h cmd = popen_out E h' cmd)"

text \<open>The length of the text that \<open>exec_cmd\<close> reads from a command of an unchanged system.\<close>

definition out_len :: "env \<Rightarrow> string \<Rightarrow> nat" where
  "out_len E cmd = length (fetch (popen_out E [] cmd))"

lemma exec_cmd_sim:
  assumes "static E" "agree n (buffer st) (buffer st2)" "olds st = olds st2"
  shows "agree (max n (out_len E cmd)) (buffer (snd (exec_cmd E cmd st)))
           (buffer (snd (exec_cmd E cmd st2)))"
    and "olds (snd (exec_cmd E cmd st)) = olds st"
    and "olds (snd (exec_cmd E cmd st2)) = olds st"
proof -
  have p: "popen_out E (trace st) cmd = popen_out E [] cmd"
    "popen_out E (trace st2) cmd = popen_out E [] cmd"
    using assms(1) unfolding static_def by blast+
  show "agree (max n (out_len E cmd)) (buffer (snd (exec_cmd E cmd st)))
           (buffer (snd (exec_cmd E cmd st2)))"
    using agree_poke [OF assms(2)] by (simp add: exec_cmd_def p out_len_def)
  show "olds (snd (exec_cmd E cmd st)) = olds st" by (simp add: exec_cmd_def)
  show "olds (snd (exec_cmd E cmd st2)) = olds st" using assms(3) by (simp add: exec_cmd_def)
qed

lemma exec_cmd_fresh:
  assumes "static E"
  shows "agree (out_len E cmd) (buffer (snd (exec_cmd E cmd st)))
           (buffer (snd (exec_cmd E cmd st2)))"
proof -
  have p: "popen_out E (trace st) cmd = popen_out E [] cmd"
    "popen_out E (trace st2) cmd = popen_out E [] cmd"
    using assms(1) unfolding static_def by blast+
  show ?thesis using agree_poke_fresh by (simp add: exec_cmd_def p out_len_def)
qed

lemma strip_newline_sim:
  assumes "agree n (buffer st) (buffer st2)" "p \<le> n"
  shows "agree n (buffer (strip_newline p st)) (buffer (strip_newline p st2))"
proof -
  have "strchr (buffer st) p NL = strchr (buffer st2) p NL"
    using agree_cstr [OF assms] by (simp add: strchr_def)
  then show ?thesis
    using assms(1) by (auto simp: strip_newline_def agree_update split: option.splits)
qed

lemma mount_loop_sim:
  assumes "sim n st st2" "\<And>l. line = Some l \<Longrightarrow> l \<le> n"
  shows "fst (mount_loop line info st) = fst (mount_loop line info st2) \<and>
         sim n (snd (mount_loop line info st)) (snd (mount_loop line info st2))"
  using assms
proof (induction line info st arbitrary: st2 rule: mount_loop.induct)
  case (1 info st)
  then show ?case by simp
next
  case (2 l info st)
  show ?case
  proof (cases "mount_count info < 8")
    case False
    then show ?thesis using "2.prems"(1) by simp
  next
    case True
    have ag: "agree n (buffer st) (buffer st2)" and o: "olds st = olds st2" "olds st \<le> n"
      using "2.prems"(1) by (simp_all add: sim_def)
    have l: "l \<le> n" using "2.prems"(2) by simp
    define info' where "info' =
       (if cell (buffer st) l = CHR ''/''
        then info\<lparr>mountpoints :=
               (mountpoints info)(mount_count info := take (MAX_PATH - 1) (cstr (buffer st) l)),
               mount_count := mount_count info + 1\<rparr>
        else info)"
    have info2: "info' =
       (if cell (buffer st2) l = CHR ''/''
        then info\<lparr>mountpoints :=
               (mountpoints info)(mount_count info := take (MAX_PATH - 1) (cstr (buffer st2) l)),
               mount_count := mount_count info + 1\<rparr>
        else info)"
      using agree_cell [OF ag l] agree_cstr [OF ag l] by (simp add: info'_def)
    have s: "start None st = start None st2" "start None st \<le> n"
      using o by (simp_all add: start_def)
    note k = strtok_sim [OF ag s, of "[NL]"]
    have e1: "mount_loop (Some l) info st =
              mount_loop (fst (strtok None [NL] st)) info' (snd (strtok None [NL] st))"
      using True by (simp add: info'_def case_prod_beta Let_def)
    have e2: "mount_loop (Some l) info st2 =
              mount_loop (fst (strtok None [NL] st)) info' (snd (strtok None [NL] st2))"
      using True k(1) by (simp add: info2 [symmetric] case_prod_beta Let_def)
    have "fst (mount_loop (fst (strtok None [NL] st)) info' (snd (strtok None [NL] st))) =
          fst (mount_loop (fst (strtok None [NL] st)) info' (snd (strtok None [NL] st2))) \<and>
          sim n (snd (mount_loop (fst (strtok None [NL] st)) info' (snd (strtok None [NL] st))))
                (snd (mount_loop (fst (strtok None [NL] st)) info' (snd (strtok None [NL] st2))))"
      by (rule "2.IH" [OF True info'_def prod.collapse k(2)]) (rule k(3))
    then show ?thesis unfolding e1 e2 .
  qed
qed

lemma get_drive_info_sim:
  assumes "static E" "agree n (buffer st) (buffer st2)" "olds st = olds st2" "k \<le> n"
  shows "fst (get_drive_info E k info st) = fst (get_drive_info E k info st2) \<and>
         (\<exists>n'. sim n' (snd (get_drive_info E k info st)) (snd (get_drive_info E k info st2)))"
proof -
  define d where "d = cstr (buffer st) k"
  have d2: "cstr (buffer st2) k = d" using agree_cstr [OF assms(2,4)] by (simp add: d_def)
  define st1 where "st1 = snd (exec_cmd E (info_cmd d) st)"
  define st1' where "st1' = snd (exec_cmd E (info_cmd d) st2)"
  define n1 where "n1 = max n (out_len E (info_cmd d))"
  have a1: "agree n1 (buffer st1) (buffer st1')" and o1: "olds st1 = olds st1'"
    using exec_cmd_sim [OF assms(1-3), of "info_cmd d"] by (simp_all add: st1_def st1'_def n1_def)
  have k1: "k \<le> n1" using assms(4) by (simp add: n1_def)
  define r where "r = cstr (buffer st1) 0"
  have r2: "cstr (buffer st1') 0 = r" using agree_cstr [OF a1, of 0] by (simp add: r_def)
  define d1 where "d1 = cstr (buffer st1) k"
  have d12: "cstr (buffer st1') k = d1" using agree_cstr [OF a1 k1] by (simp add: d1_def)
  define st2a where "st2a = snd (exec_cmd E (mountpoint_cmd d1) st1)"
  define st2b where "st2b = snd (exec_cmd E (mountpoint_cmd d1) st1')"
  define n2 where "n2 = max n1 (out_len E (mountpoint_cmd d1))"
  have a2: "agree n2 (buffer st2a) (buffer st2b)"
    using exec_cmd_sim(1) [OF assms(1) a1 o1, of "mountpoint_cmd d1"]
    by (simp add: st2a_def st2b_def n2_def)
  have s: "start (Some 0) st2a = start (Some 0) st2b" "start (Some 0) st2a \<le> n2"
    by (simp_all add: start_def)
  note t = strtok_sim [OF a2 s, of "[NL]"]
  define info2 where "info2 = sscanf_info r (info\<lparr>path := d, mount_count := 0\<rparr>)"
  have e1: "get_drive_info E k info st =
            mount_loop (fst (strtok (Some 0) [NL] st2a)) info2 (snd (strtok (Some 0) [NL] st2a))"
    by (simp add: get_drive_info_def Let_def case_prod_beta exec_cmd_def d_def st1_def r_def
        d1_def st2a_def info2_def)
  have e2: "get_drive_info E k info st2 =
            mount_loop (fst (strtok (Some 0) [NL] st2a)) info2 (snd (strtok (Some 0) [NL] st2b))"
    unfolding t(1)
    using d2 r2 d12
    by (simp add: get_drive_info_def Let_def case_prod_beta exec_cmd_def st1'_def
        st2b_def info2_def)
  have "fst (mount_loop (fst (strtok (Some 0) [NL] st2a)) info2 (snd (strtok (Some 0) [NL] st2a)))
      = fst (mount_loop (fst (strtok (Some 0) [NL] st2a)) info2 (snd (strtok (Some 0) [NL] st2b)))
      \<and> sim n2
         (snd (mount_loop (fst (strtok (Some 0) [NL] st2a)) info2 (snd (strtok (Some 0) [NL] st2a))))
         (snd (mount_loop (fst (strtok (Some 0) [NL] st2a)) info2 (snd (strtok (Some 0) [NL] st2b))))"
    by (rule mount_loop_sim [OF t(2)]) (rule t(3))
  then show ?thesis unfolding e1 e2 by blast
qed

subsection \<open>What a record keeps from the record it overwrites\<close>

lemma sscanf_info_fields:
  "size_s (sscanf_info s (i\<lparr>path := p, mount_count := c\<rparr>)) = size_s (sscanf_info s i)"
  "model (sscanf_info s (i\<lparr>path := p, mount_count := c\<rparr>)) = model (sscanf_info s i)"
  "vendor (sscanf_info s (i\<lparr>path := p, mount_count := c\<rparr>)) = vendor (sscanf_info s i)"
  "transport (sscanf_info s (i\<lparr>path := p, mount_count := c\<rparr>)) = transport (sscanf_info s i)"
  by (simp_all add: sscanf_info_def split: option.splits)

lemma sscanf_info_again:
  assumes "size_s j = size_s (sscanf_info s i)" "model j = model (sscanf_info s i)"
    "vendor j = vendor (sscanf_info s i)" "transport j = transport (sscanf_info s i)"
  shows "size_s (sscanf_info s j) = size_s j" "model (sscanf_info s j) = model j"
    "vendor (sscanf_info s j) = vendor j" "transport (sscanf_info s j) = transport j"
  using assms by (auto simp: sscanf_info_def split: option.splits)

lemma mount_loop_fields:
  "path (fst (mount_loop line info st)) = path info \<and>
   size_s (fst (mount_loop line info st)) = size_s info \<and>
   model (fst (mount_loop line info st)) = model info \<and>
   vendor (fst (mount_loop line info st)) = vendor info \<and>
   transport (fst (mount_loop line info st)) = transport info"
proof (induction line info st rule: mount_loop.induct)
  case (1 info st)
  then show ?case by simp
next
  case (2 l info st)
  show ?case
  proof (cases "mount_count info < 8")
    case False
    then show ?thesis by simp
  next
    case True
    define info' where "info' =
       (if cell (buffer st) l = CHR ''/''
        then info\<lparr>mountpoints :=
               (mountpoints info)(mount_count info := take (MAX_PATH - 1) (cstr (buffer st) l)),
               mount_count := mount_count info + 1\<rparr>
        else info)"
    have e: "mount_loop (Some l) info st =
             mount_loop (fst (strtok None [NL] st)) info' (snd (strtok None [NL] st))"
      using True by (simp add: info'_def case_prod_beta Let_def)
    have f: "path info' = path info" "size_s info' = size_s info" "model info' = model info"
      "vendor info' = vendor info" "transport info' = transport info"
      by (simp_all add: info'_def)
    show ?thesis unfolding e
      using "2.IH" [OF True info'_def prod.collapse] by (simp add: f)
  qed
qed

lemma mount_loop_below:
  "j < mount_count info \<Longrightarrow>
     mountpoints (fst (mount_loop line info st)) j = mountpoints info j"
proof (induction line info st rule: mount_loop.induct)
  case (1 info st)
  then show ?case by simp
next
  case (2 l info st)
  show ?case
  proof (cases "mount_count info < 8")
    case False
    then show ?thesis by simp
  next
    case True
    define info' where "info' =
       (if cell (buffer st) l = CHR ''/''
        then info\<lparr>mountpoints :=
               (mountpoints info)(mount_count info := take (MAX_PATH - 1) (cstr (buffer st) l)),
               mount_count := mount_count info + 1\<rparr>
        else info)"
    have e: "mount_loop (Some l) info st =
             mount_loop (fst (strtok None [NL] st)) info' (snd (strtok None [NL] st))"
      using True by (simp add: info'_def case_prod_beta Let_def)
    have j: "j < mount_count info'" "mountpoints info' j = mountpoints info j"
      using "2.prems" by (simp_all add: info'_def)
    show ?thesis unfolding e
      using "2.IH" [OF True info'_def prod.collapse j(1)] j(2) by simp
  qed
qed

text \<open>
  The loop reads of the record it fills only the counter: started on a record with the
  same counter, it leaves the same state and the same counter, and writes the same
  entries.
\<close>

lemma mount_loop_other:
  assumes "mount_count info' = mount_count info"
  shows "snd (mount_loop line info' st) = snd (mount_loop line info st) \<and>
         mount_count (fst (mount_loop line info' st)) = mount_count (fst (mount_loop line info st)) \<and>
         (\<forall>j \<ge> mount_count info.
            mountpoints info' j = mountpoints (fst (mount_loop line info st)) j \<longrightarrow>
            mountpoints (fst (mount_loop line info' st)) j =
              mountpoints (fst (mount_loop line info st)) j)"
  using assms
proof (induction line info st arbitrary: info' rule: mount_loop.induct)
  case (1 info st)
  then show ?case by simp
next
  case (2 l info st)
  show ?case
  proof (cases "mount_count info < 8")
    case False
    then show ?thesis using "2.prems" by simp
  next
    case True
    define c where "c = mount_count info"
    define v where "v = take (MAX_PATH - 1) (cstr (buffer st) l)"
    define upd where "upd = (\<lambda>i :: DriveInfo.
       if cell (buffer st) l = CHR ''/''
       then i\<lparr>mountpoints := (mountpoints i)(mount_count i := v),
               mount_count := mount_count i + 1\<rparr>
       else i)"
    have u: "upd info =
       (if cell (buffer st) l = CHR ''/''
        then info\<lparr>mountpoints :=
               (mountpoints info)(mount_count info := take (MAX_PATH - 1) (cstr (buffer st) l)),
               mount_count := mount_count info + 1\<rparr>
        else info)"
      by (simp add: upd_def v_def)
    define line' where "line' = fst (strtok None [NL] st)"
    define st' where "st' = snd (strtok None [NL] st)"
    have e: "mount_loop (Some l) i st = mount_loop line' (upd i) st'"
      if "mount_count i = mount_count info" for i
      using True that by (simp add: upd_def v_def line'_def st'_def case_prod_beta Let_def)
    have mc: "mount_count (upd info') = mount_count (upd info)"
      using "2.prems" by (simp add: upd_def)
    have ih: "snd (mount_loop line' (upd info') st') = snd (mount_loop line' (upd info) st') \<and>
         mount_count (fst (mount_loop line' (upd info') st')) =
           mount_count (fst (mount_loop line' (upd info) st')) \<and>
         (\<forall>j \<ge> mount_count (upd info).
            mountpoints (upd info') j = mountpoints (fst (mount_loop line' (upd info) st')) j \<longrightarrow>
            mountpoints (fst (mount_loop line' (upd info') st')) j =
              mountpoints (fst (mount_loop line' (upd info) st')) j)"
      unfolding line'_def st'_def
      by (rule "2.IH" [OF True u prod.collapse]) (rule mc)
    have "mountpoints (fst (mount_loop line' (upd info') st')) j =
          mountpoints (fst (mount_loop line' (upd info) st')) j"
      if j: "c \<le> j" and h: "mountpoints info' j = mountpoints (fst (mount_loop line' (upd info) st')) j"
      for j
    proof (cases "mount_count (upd info) \<le> j")
      case True
      have "mountpoints (upd info') j = mountpoints info' j"
        using True "2.prems" by (auto simp: upd_def c_def)
      then show ?thesis using ih True h by simp
    next
      case False
      then have jl: "j < mount_count (upd info)" "j < mount_count (upd info')"
        using mc by simp_all
      have jc: "j = c" and sl: "cell (buffer st) l = CHR ''/''"
        using jl(1) j by (auto simp: upd_def c_def split: if_splits)
      have "mountpoints (fst (mount_loop line' (upd info') st')) j = mountpoints (upd info') j"
        using jl(2) by (rule mount_loop_below)
      moreover have "mountpoints (fst (mount_loop line' (upd info) st')) j = mountpoints (upd info) j"
        using jl(1) by (rule mount_loop_below)
      moreover have "mountpoints (upd info') j = mountpoints (upd info) j"
        using jc sl "2.prems" by (simp add: upd_def c_def)
      ultimately show ?thesis by simp
    qed
    then show ?thesis
      using ih e [of info'] e [of info] "2.prems" by (simp add: c_def)
  qed
qed

lemma get_drive_info_alt:
  "\<exists>line s st3. \<forall>i. get_drive_info E k i st =
      mount_loop line (sscanf_info s (i\<lparr>path := cstr (buffer st) k, mount_count := 0\<rparr>)) st3"
proof -
  define st1 where "st1 = snd (exec_cmd E (info_cmd (cstr (buffer st) k)) st)"
  define s where "s = cstr (buffer st1) 0"
  define st2 where "st2 = snd (exec_cmd E (mountpoint_cmd (cstr (buffer st1) k)) st1)"
  have r: "fst (exec_cmd E c t) = 0" for c t by (simp add: exec_cmd_def)
  have "get_drive_info E k i st =
        mount_loop (fst (strtok (Some 0) [NL] st2))
          (sscanf_info s (i\<lparr>path := cstr (buffer st) k, mount_count := 0\<rparr>))
          (snd (strtok (Some 0) [NL] st2))" for i
    unfolding get_drive_info_def Let_def case_prod_beta r st1_def s_def st2_def ..
  then show ?thesis by blast
qed

lemma get_drive_info_state:
  "snd (get_drive_info E k info' st) = snd (get_drive_info E k info st)"
proof -
  obtain line s st3 where e: "\<And>i. get_drive_info E k i st =
      mount_loop line (sscanf_info s (i\<lparr>path := cstr (buffer st) k, mount_count := 0\<rparr>)) st3"
    using get_drive_info_alt by blast
  have "mount_count (sscanf_info s (info'\<lparr>path := cstr (buffer st) k, mount_count := 0\<rparr>)) =
        mount_count (sscanf_info s (info\<lparr>path := cstr (buffer st) k, mount_count := 0\<rparr>))"
    by (simp add: sscanf_info_frame)
  from mount_loop_other [OF this, of line st3] show ?thesis unfolding e by blast
qed

lemma get_drive_info_again:
  "fst (get_drive_info E k (fst (get_drive_info E k info st)) st) =
   fst (get_drive_info E k info st)"
proof -
  define d where "d = cstr (buffer st) k"
  obtain line s st3 where e: "\<And>i. get_drive_info E k i st =
      mount_loop line (sscanf_info s (i\<lparr>path := d, mount_count := 0\<rparr>)) st3"
    unfolding d_def using get_drive_info_alt by blast
  define i2 where "i2 = sscanf_info s (info\<lparr>path := d, mount_count := 0\<rparr>)"
  define r where "r = fst (mount_loop line i2 st3)"
  define j2 where "j2 = sscanf_info s (r\<lparr>path := d, mount_count := 0\<rparr>)"
  define r' where "r' = fst (mount_loop line j2 st3)"
  have mc: "mount_count j2 = mount_count i2" "mount_count i2 = 0"
    by (simp_all add: j2_def i2_def sscanf_info_frame)
  note o = mount_loop_other [OF mc(1), of line st3]
  have mp: "mountpoints j2 = mountpoints r" by (simp add: j2_def sscanf_info_frame)
  have "mountpoints r' j = mountpoints r j" for j
    using o mp mc(2) by (simp add: r'_def r_def)
  then have m: "mountpoints r' = mountpoints r" by (rule ext)
  have c: "mount_count r' = mount_count r" using o by (simp add: r'_def r_def)
  note f = mount_loop_fields [of line i2 st3] mount_loop_fields [of line j2 st3]
  have p: "path r' = path r"
    using f by (simp add: r'_def r_def j2_def i2_def sscanf_info_frame)
  have ri: "size_s r = size_s (sscanf_info s info)" "model r = model (sscanf_info s info)"
    "vendor r = vendor (sscanf_info s info)" "transport r = transport (sscanf_info s info)"
    using f by (simp_all add: r_def i2_def sscanf_info_fields)
  have "size_s r' = size_s r" "model r' = model r" "vendor r' = vendor r"
    "transport r' = transport r"
    using f sscanf_info_again [OF ri]
    by (simp_all add: r'_def j2_def sscanf_info_fields)
  then have "r' = r" using m c p by (intro DriveInfo.equality) simp_all
  then show ?thesis by (simp add: e r'_def j2_def r_def i2_def)
qed

lemma drives_loop_below:
  "j < count \<Longrightarrow> fst (snd (drives_loop E line count drives m st)) j = drives j"
proof (induction E line count drives m st rule: drives_loop.induct)
  case (1 E count drives m st)
  then show ?case by simp
next
  case (2 E l count drives m st)
  show ?case
  proof (cases "count < m")
    case False
    then show ?thesis by simp
  next
    case True
    define info where "info = fst (get_drive_info E l (drives count) st)"
    define st1 where "st1 = snd (get_drive_info E l (drives count) st)"
    have e: "drives_loop E (Some l) count drives m st =
             drives_loop E (fst (strtok None [NL] st1)) (count + 1) (drives(count := info)) m
               (snd (strtok None [NL] st1))"
      using True by (simp add: info_def st1_def case_prod_beta)
    have j: "j < count + 1" using "2.prems" by simp
    have "fst (snd (drives_loop E (fst (strtok None [NL] st1)) (count + 1)
             (drives(count := info)) m (snd (strtok None [NL] st1)))) j =
          (drives(count := info)) j"
      unfolding info_def st1_def
      by (rule "2.IH" [OF True prod.collapse prod.collapse j])
    then show ?thesis unfolding e using "2.prems" by simp
  qed
qed

text \<open>
  The loop of the catalog builder, run on the array that an earlier run from an agreeing
  state has filled: the same count, and the same records from the current index on.
\<close>

lemma drives_loop_again:
  assumes "static E" "sim n st st2" "\<And>l. line = Some l \<Longrightarrow> l \<le> n"
    and "\<forall>j \<ge> count. drives' j = fst (snd (drives_loop E line count drives m st)) j"
  shows "fst (drives_loop E line count drives' m st2) = fst (drives_loop E line count drives m st) \<and>
         (\<forall>j \<ge> count. fst (snd (drives_loop E line count drives' m st2)) j =
                        fst (snd (drives_loop E line count drives m st)) j)"
  using assms
proof (induction E line count drives m st arbitrary: drives' st2 n rule: drives_loop.induct)
  case (1 E count drives m st)
  then show ?case by simp
next
  case (2 E l count drives m st)
  show ?case
  proof (cases "count < m")
    case False
    then show ?thesis using "2.prems"(4) by simp
  next
    case True
    have ag: "agree n (buffer st) (buffer st2)" and o: "olds st = olds st2"
      using "2.prems"(2) by (simp_all add: sim_def)
    have l: "l \<le> n" using "2.prems"(3) by simp
    define info where "info = fst (get_drive_info E l (drives count) st)"
    define st1 where "st1 = snd (get_drive_info E l (drives count) st)"
    define line' where "line' = fst (strtok None [NL] st1)"
    define st1' where "st1' = snd (strtok None [NL] st1)"
    define F where "F = fst (snd (drives_loop E line' (count + 1) (drives(count := info)) m st1'))"
    have e: "drives_loop E (Some l) count drives m st =
             drives_loop E line' (count + 1) (drives(count := info)) m st1'"
      using True by (simp add: info_def st1_def line'_def st1'_def case_prod_beta)
    have Fc: "F count = info"
      unfolding F_def using drives_loop_below [of count "count + 1"] by simp
    have H: "\<forall>j \<ge> count. drives' j = F j" using "2.prems"(4) unfolding e F_def .
    then have dc: "drives' count = info" using Fc by simp
    define st2a where "st2a = snd (get_drive_info E l info st2)"
    have i2: "fst (get_drive_info E l info st2) = info"
    proof -
      have "fst (get_drive_info E l info st2) = fst (get_drive_info E l info st)"
        using get_drive_info_sim [OF "2.prems"(1) ag o l, of info] by simp
      then show ?thesis unfolding info_def by (simp add: get_drive_info_again)
    qed
    obtain n' where "sim n' (snd (get_drive_info E l info st)) st2a"
      using get_drive_info_sim [OF "2.prems"(1) ag o l, of info] unfolding st2a_def by blast
    then have s1: "sim n' st1 st2a"
      unfolding st1_def using get_drive_info_state [of E l info st "drives count"] by simp
    have ag1: "agree n' (buffer st1) (buffer st2a)"
      and st: "start None st1 = start None st2a" "start None st1 \<le> n'"
      using s1 by (simp_all add: sim_def start_def)
    note t = strtok_sim [OF ag1 st, of "[NL]"]
    have e2: "drives_loop E (Some l) count drives' m st2 =
              drives_loop E line' (count + 1) (drives'(count := info)) m
                (snd (strtok None [NL] st2a))"
      using True t(1) i2 dc by (simp add: st2a_def line'_def case_prod_beta)
    have H': "\<forall>j \<ge> count + 1. (drives'(count := info)) j =
                fst (snd (drives_loop E line' (count + 1) (drives(count := info)) m st1')) j"
      using H by (simp add: F_def)
    have t2: "sim n' st1' (snd (strtok None [NL] st2a))" using t(2) by (simp add: st1'_def)
    have t3: "\<And>l. line' = Some l \<Longrightarrow> l \<le> n'" using t(3) by (simp add: line'_def)
    have ih: "fst (drives_loop E line' (count + 1) (drives'(count := info)) m
                 (snd (strtok None [NL] st2a))) =
              fst (drives_loop E line' (count + 1) (drives(count := info)) m st1') \<and>
              (\<forall>j \<ge> count + 1.
                 fst (snd (drives_loop E line' (count + 1) (drives'(count := info)) m
                   (snd (strtok None [NL] st2a)))) j = F j)"
      unfolding F_def line'_def st1'_def info_def st1_def
      by (rule "2.IH" [OF True prod.collapse prod.collapse "2.prems"(1)
            t2 [unfolded st1'_def st1_def]
            t3 [unfolded line'_def st1_def]
            H' [unfolded line'_def st1'_def info_def st1_def]])
    have "fst (snd (drives_loop E line' (count + 1) (drives'(count := info)) m
            (snd (strtok None [NL] st2a)))) count = info"
      using drives_loop_below [of count "count + 1"] by simp
    then have "\<forall>j \<ge> count.
        fst (snd (drives_loop E line' (count + 1) (drives'(count := info)) m
          (snd (strtok None [NL] st2a)))) j = F j"
      using ih Fc by (metis Suc_eq_plus1 le_antisym not_less_eq_eq)
    then show ?thesis unfolding e e2 using ih by (simp add: F_def)
  qed
qed

lemma get_drives_start:
  assumes "static E"
  shows "\<exists>n line sa sb.
           (\<forall>d. get_drives E d m st = drives_loop E line 0 d m sa) \<and>
           (\<forall>d. get_drives E d m st' = drives_loop E line 0 d m sb) \<and>
           sim n sa sb \<and> (\<forall>l. line = Some l \<longrightarrow> l \<le> n)"
proof -
  define c0 where "c0 = take (MAX_LINE - 1) root_cmd"
  define s1 where "s1 = strip_newline 0 (snd (exec_cmd E c0 st))"
  define s1' where "s1' = strip_newline 0 (snd (exec_cmd E c0 st'))"
  have "agree (out_len E c0) (buffer s1) (buffer s1')"
    unfolding s1_def s1'_def
    by (rule strip_newline_sim [OF exec_cmd_fresh [OF assms]]) simp
  then have root: "cstr (buffer s1') 0 = cstr (buffer s1) 0"
    using agree_cstr [of "out_len E c0" "buffer s1" "buffer s1'" 0] by simp
  define root where "root = take (64 - 1) (cstr (buffer s1) 0)"
  define s2 where "s2 = snd (exec_cmd E (list_cmd root) s1)"
  define s2' where "s2' = snd (exec_cmd E (list_cmd root) s1')"
  define n where "n = out_len E (list_cmd root)"
  have ag: "agree n (buffer s2) (buffer s2')"
    unfolding s2_def s2'_def n_def by (rule exec_cmd_fresh [OF assms])
  have s: "start (Some 0) s2 = start (Some 0) s2'" "start (Some 0) s2 \<le> n"
    by (simp_all add: start_def)
  note t = strtok_sim [OF ag s, of "[NL]"]
  have r: "fst (exec_cmd E c t) = 0" for c t by (simp add: exec_cmd_def)
  have e1: "get_drives E d m st =
            drives_loop E (fst (strtok (Some 0) [NL] s2)) 0 d m (snd (strtok (Some 0) [NL] s2))"
    for d
    unfolding get_drives_def get_root_drive_def Let_def case_prod_beta r fst_conv snd_conv
      s2_def root_def s1_def c0_def ..
  have e2: "get_drives E d m st' =
            drives_loop E (fst (strtok (Some 0) [NL] s2)) 0 d m (snd (strtok (Some 0) [NL] s2'))"
    for d
    unfolding t(1)
    unfolding get_drives_def get_root_drive_def Let_def case_prod_beta r fst_conv snd_conv
      s2'_def root_def root [symmetric] s1'_def c0_def ..
  show ?thesis using e1 e2 t(2,3) by blast
qed

text \<open>
  C8. When the external queries answer by their command alone, whatever has run before, a
  second run of \<open>get_drives\<close> on the array the first run has filled, from any state of
  the buffer, returns the count of the first run and leaves the array as the first run
  left it: the same records, field by field and mount point by mount point, in the same
  order. (In \<open>main\<close> every run but the first is a run on the array of the run before.)
\<close>

theorem catalog_rebuild:
  assumes "static E"
  shows "fst (get_drives E (fst (snd (get_drives E drives m st))) m st') =
           fst (get_drives E drives m st) \<and>
         fst (snd (get_drives E (fst (snd (get_drives E drives m st))) m st')) =
           fst (snd (get_drives E drives m st)) \<and>
         catalog (get_drives E (fst (snd (get_drives E drives m st))) m st') =
           catalog (get_drives E drives m st)"
proof -
  obtain n line sa sb where
    e1: "\<And>d. get_drives E d m st = drives_loop E line 0 d m sa" and
    e2: "\<And>d. get_drives E d m st' = drives_loop E line 0 d m sb" and
    s: "sim n sa sb" and l: "\<And>l. line = Some l \<Longrightarrow> l \<le> n"
    using get_drives_start [OF assms, of m st st'] by blast
  define F where "F = fst (snd (drives_loop E line 0 drives m sa))"
  have h: "\<forall>j \<ge> 0. F j = fst (snd (drives_loop E line 0 drives m sa)) j"
    by (simp add: F_def)
  note a = drives_loop_again [OF assms s l h]
  have c: "fst (drives_loop E line 0 F m sb) = fst (drives_loop E line 0 drives m sa)"
    using a by simp
  have "fst (snd (drives_loop E line 0 F m sb)) j = F j" for j
    using a by (simp add: F_def)
  then have f: "fst (snd (drives_loop E line 0 F m sb)) = F" by (rule ext)
  show ?thesis unfolding e1 e2 using c f by (simp add: F_def catalog_def)
qed

lemma E_flood_static: "static E_flood"
  by (simp add: static_def E_flood_def)

text \<open>
  What \<open>show_drives\<close> can print of a record: its strings, and the mount points below
  its counter.
\<close>

definition record_view ::
  "DriveInfo \<Rightarrow> string \<times> string \<times> string \<times> string \<times> string \<times> string list" where
  "record_view i = (path i, size_s i, model i, vendor i, transport i, mount_points i)"

lemma E_flood_catalog:
  "map record_view (catalog (get_drives E_flood (\<lambda>i. no_info) MAX_DRIVES st_init)) =
     [(''/dev/sdb'', ''1G'', ''M'', ''V'', ''usb'',
       [''/m0'', ''/m1'', ''/m2'', ''/m3'', ''/m4'', ''/m5'', ''/m6'', ''/m7'']),
      (''/dev/sda'', [], [], [], [], [])]"
  by (simp add: eval_defs E_flood_def flood_def catalog_def record_view_def mount_points_def)

text \<open>
  Witness for C8: the environment \<open>E_flood\<close> answers by the command alone, and the second
  run, started in the state the first run has left, gives the two records of the first.
\<close>

theorem catalog_rebuild_witness:
  "static E_flood \<and>
   map record_view
     (catalog (get_drives E_flood
        (fst (snd (get_drives E_flood (\<lambda>i. no_info) MAX_DRIVES st_init))) MAX_DRIVES
        (snd (snd (get_drives E_flood (\<lambda>i. no_info) MAX_DRIVES st_init))))) =
     [(''/dev/sdb'', ''1G'', ''M'', ''V'', ''usb'',
       [''/m0'', ''/m1'', ''/m2'', ''/m3'', ''/m4'', ''/m5'', ''/m6'', ''/m7'']),
      (''/dev/sda'', [], [], [], [], [])]"
  using catalog_rebuild [OF E_flood_static, of "\<lambda>i. no_info" MAX_DRIVES st_init
      "snd (snd (get_drives E_flood (\<lambda>i. no_info) MAX_DRIVES st_init))"]
    E_flood_static E_flood_catalog
  by simp

text \<open>
  Witness for C4: in \<open>E_flood\<close> the mount-point query prints ten lines that start with
  a slash; the catalog has two records, and the first one holds the first eight lines.
\<close>

theorem catalog_capacity_witness:
  "length (catalog (get_drives E_flood (\<lambda>i. no_info) MAX_DRIVES st_init)) = 2 \<and>
   length (catalog (get_drives E_flood (\<lambda>i. no_info) MAX_DRIVES st_init)) \<le> 32 \<and>
   mount_points (catalog (get_drives E_flood (\<lambda>i. no_info) MAX_DRIVES st_init) ! 0) =
     [''/m0'', ''/m1'', ''/m2'', ''/m3'', ''/m4'', ''/m5'', ''/m6'', ''/m7''] \<and>
   length (mount_points (catalog (get_drives E_flood (\<lambda>i. no_info) MAX_DRIVES st_init) ! 0)) \<le> 8"
proof -
  define c where "c = catalog (get_drives E_flood (\<lambda>i. no_info) MAX_DRIVES st_init)"
  have v: "map record_view c =
     [(''/dev/sdb'', ''1G'', ''M'', ''V'', ''usb'',
       [''/m0'', ''/m1'', ''/m2'', ''/m3'', ''/m4'', ''/m5'', ''/m6'', ''/m7'']),
      (''/dev/sda'', [], [], [], [], [])]"
    unfolding c_def by (rule E_flood_catalog)
  have l: "length c = 2" using arg_cong [OF v, of length] by simp
  have "record_view (c ! 0) = map record_view c ! 0" using l by simp
  then have m: "mount_points (c ! 0) =
      [''/m0'', ''/m1'', ''/m2'', ''/m3'', ''/m4'', ''/m5'', ''/m6'', ''/m7'']"
    unfolding v by (simp add: record_view_def)
  have "c ! 0 \<in> set c" using l by simp
  then have "length (mount_points (c ! 0)) \<le> 8" and "length c \<le> 32"
    using catalog_capacity [of E_flood "\<lambda>i. no_info" st_init] unfolding c_def by blast+
  then show ?thesis using l m unfolding c_def by blast
qed

subsection \<open>C3: the root disk\<close>

text \<open>
  The first line of a text as \<open>strtok\<close> cuts it out: empty lines skipped, the newline
  left off.
\<close>

definition first_line :: "string \<Rightarrow> string" where
  "first_line out = takeWhile (\<lambda>c. c \<noteq> NL) (dropWhile (\<lambda>c. c = NL) out)"

text \<open>What the listing command of \<open>get_drives\<close> prints, as \<open>exec_cmd\<close> reads it.\<close>

definition listing :: "env \<Rightarrow> state \<Rightarrow> string" where
  "listing E st =
     (let (root_drive, st1) = get_root_drive E 64 st
      in fetch (popen_out E (trace st1) (list_cmd root_drive)))"

lemma cstr_poke_drop:
  assumes "NUL \<notin> set s" "t \<le> length s"
  shows "cstr (poke_str s b) t = drop t s"
proof -
  have "NUL \<notin> set (drop t s)" using assms(1) by (meson in_set_dropD)
  then show ?thesis using assms(2) by (simp add: cstr_def poke_str_def takeWhile_until)
qed

lemma first_token_of_output:
  assumes "buffer st = poke_str out b" "NUL \<notin> set out" "fst (strtok (Some 0) [NL] st) = Some t"
  shows "cstr (buffer (snd (strtok (Some 0) [NL] st))) t = first_line out"
proof -
  have c0: "cstr (buffer st) 0 = out" using assms(1,2) by (simp add: cstr_poke)
  have t: "t = length (takeWhile (\<lambda>c. c = NL) out)"
    using assms(3) c0 by (auto simp: strtok_alt tok_start_def start_def strspn_def split: if_splits)
  then have "t \<le> length out" by (simp add: length_takeWhile_le)
  then have "cstr (buffer st) t = drop t out" using assms(1,2) by (simp add: cstr_poke_drop)
  also have "\<dots> = dropWhile (\<lambda>c. c = NL) out" by (simp add: t dropWhile_eq_drop)
  finally have "cstr (buffer st) t = dropWhile (\<lambda>c. c = NL) out" .
  then show ?thesis using strtok_token(1) [OF assms(3)] by (simp add: first_line_def)
qed

lemma get_drive_info_path: "path (fst (get_drive_info E k info st)) = cstr (buffer st) k"
proof -
  have "path (fst (mount_loop line (sscanf_info s (i\<lparr>path := p, mount_count := 0\<rparr>)) st3)) = p"
    for line s i p st3
    by (simp add: mount_loop_fields sscanf_info_frame)
  then show ?thesis by (simp add: get_drive_info_def Let_def case_prod_beta)
qed

lemma drives_loop_first:
  assumes "0 < fst (drives_loop E line 0 drives m st)"
  shows "\<exists>l. line = Some l \<and>
           path (fst (snd (drives_loop E line 0 drives m st)) 0) = cstr (buffer st) l"
proof (cases line)
  case None
  then show ?thesis using assms by simp
next
  case (Some l)
  have m: "0 < m" using assms Some by (cases "0 < m") simp_all
  define info where "info = fst (get_drive_info E l (drives 0) st)"
  define st1 where "st1 = snd (get_drive_info E l (drives 0) st)"
  have e: "drives_loop E (Some l) 0 drives m st =
           drives_loop E (fst (strtok None [NL] st1)) (0 + 1) (drives(0 := info)) m
             (snd (strtok None [NL] st1))"
    using m by (simp add: info_def st1_def case_prod_beta)
  have "fst (snd (drives_loop E (fst (strtok None [NL] st1)) (0 + 1) (drives(0 := info)) m
          (snd (strtok None [NL] st1)))) 0 = (drives(0 := info)) 0"
    by (rule drives_loop_below) simp
  then have "path (fst (snd (drives_loop E (Some l) 0 drives m st)) 0) = path info"
    unfolding e by simp
  then show ?thesis using Some by (simp add: info_def get_drive_info_path)
qed

text \<open>
  The first record of a catalog has for its path the first line of what the listing
  command printed, as it is: the C code compares no name with the root device's, the
  \<open>awk\<close> program in the command does.
\<close>

theorem first_record_is_listed:
  assumes "0 < fst (get_drives E drives m st)"
  shows "path (fst (snd (get_drives E drives m st)) 0) = first_line (listing E st)"
proof -
  define root where "root = fst (get_root_drive E 64 st)"
  define st1 where "st1 = snd (get_root_drive E 64 st)"
  define out where "out = fetch (popen_out E (trace st1) (list_cmd root))"
  define st2 where "st2 = snd (exec_cmd E (list_cmd root) st1)"
  have r: "fst (exec_cmd E c t) = 0" for c t by (simp add: exec_cmd_def)
  have e: "get_drives E drives m st =
           drives_loop E (fst (strtok (Some 0) [NL] st2)) 0 drives m (snd (strtok (Some 0) [NL] st2))"
    unfolding get_drives_def Let_def case_prod_beta r st2_def root_def st1_def ..
  have b: "buffer st2 = poke_str out (buffer st1)" by (simp add: st2_def exec_cmd_def out_def)
  have n: "NUL \<notin> set out" unfolding out_def by (rule fetch_no_nul)
  obtain l where l: "fst (strtok (Some 0) [NL] st2) = Some l"
    and p: "path (fst (snd (get_drives E drives m st)) 0) =
            cstr (buffer (snd (strtok (Some 0) [NL] st2))) l"
    using drives_loop_first [of E "fst (strtok (Some 0) [NL] st2)" drives m
        "snd (strtok (Some 0) [NL] st2)"] assms
    unfolding e by blast
  have "listing E st = out"
    by (simp add: listing_def case_prod_beta out_def root_def st1_def)
  then show ?thesis using p first_token_of_output [OF b n l] by simp
qed

lemma E_flood_count:
  "length (catalog (get_drives E_flood (\<lambda>i. no_info) MAX_DRIVES st_init)) = 2"
  using arg_cong [OF E_flood_catalog, of length] by simp

text \<open>In \<open>E_flood\<close> the listing is the line \<open>/dev/sdb\<close>, and the first record has that path.\<close>

theorem first_record_is_listed_witness:
  "0 < fst (get_drives E_flood (\<lambda>i. no_info) MAX_DRIVES st_init) \<and>
   listing E_flood st_init = ''/dev/sdb'' @ [NL] \<and>
   path (fst (snd (get_drives E_flood (\<lambda>i. no_info) MAX_DRIVES st_init)) 0) = ''/dev/sdb''"
proof -
  have c: "0 < fst (get_drives E_flood (\<lambda>i. no_info) MAX_DRIVES st_init)"
    using E_flood_count by (simp add: catalog_def)
  have l: "listing E_flood st_init = ''/dev/sdb'' @ [NL]"
    by (simp add: eval_defs E_flood_def listing_def)
  show ?thesis using first_record_is_listed [OF c] c l by (simp add: first_line_def)
qed


















subsection \<open>The tokens of the detail line\<close>

text \<open>A token that fits a field of \<open>w\<close> characters.\<close>

definition token :: "nat \<Rightarrow> string \<Rightarrow> bool" where
  "token w t \<longleftrightarrow> t \<noteq> [] \<and> length t \<le> w \<and> list_all (\<lambda>c. \<not> isspace c) t"

lemma scan_s_token:
  assumes "token w a" "isspace c"
  shows "scan_s w (a @ c # r) = Some (a, c # r)"
    and "scan_s w (CHR '' '' # a @ c # r) = Some (a, c # r)"
proof -
  have ns: "\<forall>x \<in> set a. \<not> isspace x" and ne: "a \<noteq> []" and le: "length a \<le> w"
    using assms(1) by (simp_all add: token_def list_all_iff)
  have h: "\<not> isspace (hd a)" using ns ne by simp
  have d: "dropWhile isspace (a @ c # r) = a @ c # r"
    using h ne by (cases a) simp_all
  have t: "takeWhile (\<lambda>c. \<not> isspace c) (a @ c # r) = a"
    using ns assms(2) by (simp add: takeWhile_append2)
  show 1: "scan_s w (a @ c # r) = Some (a, c # r)"
    using ne le by (simp add: scan_s_def Let_def d t)
  have "dropWhile isspace (CHR '' '' # a @ c # r) = a @ c # r"
    using d by (simp add: isspace_def)
  then show "scan_s w (CHR '' '' # a @ c # r) = Some (a, c # r)"
    using ne le by (simp add: scan_s_def Let_def t)
qed

lemma scan_s_end: "scan_s w [NL] = None"
  by (simp add: scan_s_def isspace_def)

text \<open>
  The positive half of C2: on a detail line of one to four tokens that fit their
  fields, \<open>sscanf\<close> writes the tokens to size, model, vendor and transport in that order,
  and writes no field for which the line has no token.
\<close>

theorem tokens_assigned_in_order:
  assumes "token 63 a" "token 127 b" "token 127 c" "token 31 d"
  shows "sscanf_info (a @ [NL]) i = i\<lparr>size_s := a\<rparr> \<and>
         sscanf_info (a @ CHR '' '' # b @ [NL]) i = i\<lparr>size_s := a, model := b\<rparr> \<and>
         sscanf_info (a @ CHR '' '' # b @ CHR '' '' # c @ [NL]) i =
           i\<lparr>size_s := a, model := b, vendor := c\<rparr> \<and>
         sscanf_info (a @ CHR '' '' # b @ CHR '' '' # c @ CHR '' '' # d @ [NL]) i =
           i\<lparr>size_s := a, model := b, vendor := c, transport := d\<rparr>"
proof -
  have nl: "isspace NL" and sp: "isspace (CHR '' '')" by (simp_all add: isspace_def)
  note s = scan_s_token [OF assms(1)] scan_s_token [OF assms(2)] scan_s_token [OF assms(3)]
    scan_s_token [OF assms(4)]
  have 1: "sscanf_info (a @ [NL]) i = i\<lparr>size_s := a\<rparr>"
    by (simp add: sscanf_info_def s(1) [OF nl] scan_s_end)
  have 2: "sscanf_info (a @ CHR '' '' # b @ [NL]) i = i\<lparr>size_s := a, model := b\<rparr>"
    by (simp add: sscanf_info_def s(1) [OF sp] s(4) [OF nl] scan_s_end)
  have 3: "sscanf_info (a @ CHR '' '' # b @ CHR '' '' # c @ [NL]) i =
           i\<lparr>size_s := a, model := b, vendor := c\<rparr>"
    by (simp add: sscanf_info_def s(1) [OF sp] s(4) [OF sp] s(6) [OF nl] scan_s_end)
  have 4: "sscanf_info (a @ CHR '' '' # b @ CHR '' '' # c @ CHR '' '' # d @ [NL]) i =
           i\<lparr>size_s := a, model := b, vendor := c, transport := d\<rparr>"
    by (simp add: sscanf_info_def s(1) [OF sp] s(4) [OF sp] s(6) [OF sp] s(8) [OF nl] scan_s_end)
  show ?thesis using 1 2 3 4 by simp
qed

text \<open>A line of two tokens and a line of four, read into an empty record.\<close>

theorem tokens_assigned_in_order_witness:
  "token 63 ''14.9G'' \<and> token 127 ''Cruzer'' \<and> token 127 ''SanDisk'' \<and> token 31 ''usb'' \<and>
   sscanf_info (''14.9G Cruzer'' @ [NL]) no_info =
     no_info\<lparr>size_s := ''14.9G'', model := ''Cruzer''\<rparr> \<and>
   sscanf_info (''14.9G Cruzer SanDisk usb'' @ [NL]) no_info =
     no_info\<lparr>size_s := ''14.9G'', model := ''Cruzer'', vendor := ''SanDisk'',
       transport := ''usb''\<rparr>"
proof -
  have t: "token 63 ''14.9G''" "token 127 ''Cruzer''" "token 127 ''SanDisk''" "token 31 ''usb''"
    by (simp_all add: token_def isspace_def)
  show ?thesis using tokens_assigned_in_order [OF t, of no_info] t by simp
qed

end
